theory Spec2Isabelle
  imports Complex_Main
begin

section \<open>Conventions of the embedding\<close>

text \<open>
  The repository holds three predictors: \<^verbatim>\<open>index.cjs\<close> (redblack\_predictor\_fixed, names
  suffixed \<open>_rb\<close> here), \<^verbatim>\<open>iv-redblack-advanced.cjs\<close> (suffix \<open>_adv\<close>) and
  \<^verbatim>\<open>sportypredictor.cjs\<close> (suffix \<open>_sp\<close>). A name has no suffix when one file only
  declares it, or when the files that declare it give it the same value.

  JavaScript numbers are read as real numbers: rounding, overflow and \<open>NaN\<close> are outside
  the embedding, so an equation proved here is the exact counterpart of the source's
  "equal within floating tolerance". A probability object whose own keys are the outcome
  alphabet is the function giving the value stored at each key; the sum over
  \<^verbatim>\<open>Object.values\<close> is the sum over the alphabet in key order. On such an object
  \<^verbatim>\<open>(p[o] || 0)\<close> is \<open>p o\<close>, since the only falsy real is \<open>0\<close>.
\<close>

type_synonym dist = "string \<Rightarrow> real"

text \<open>The exceptions of the source: the input error of the parser, and a \<^verbatim>\<open>TypeError\<close>.\<close>

datatype error = InputError string | TypeError

definition OUTCOMES :: "string list" where
  "OUTCOMES = [''RED'', ''BLACK'', ''GREEN'']"

definition OUTCOMES_sp :: "string list" where
  "OUTCOMES_sp = [''R'', ''B'', ''G'']"

definition STREAK_WINDOW :: nat where
  "STREAK_WINDOW = 3"

definition sumValues :: "string list \<Rightarrow> dist \<Rightarrow> real" where
  "sumValues keys obj = foldl (+) 0 (map obj keys)"

text \<open>\<^verbatim>\<open>Object.fromEntries(keys.map(o => [o, v]))\<close>; a key the object lacks reads as 0.\<close>

definition fromEntries :: "string list \<Rightarrow> real \<Rightarrow> dist" where
  "fromEntries keys v = (\<lambda>k. if k \<in> set keys then v else 0)"

text \<open>
  What the claims call a distribution over an alphabet: no negative value, and the values
  sum to 1.
\<close>

definition is_dist :: "string list \<Rightarrow> dist \<Rightarrow> bool" where
  "is_dist keys p = (list_all (\<lambda>k. 0 \<le> p k) keys \<and> sumValues keys p = 1)"

definition slice_last :: "nat \<Rightarrow> 'a list \<Rightarrow> 'a list" where
  "slice_last k xs = drop (length xs - k) xs"

definition every_same :: "'a list \<Rightarrow> bool" where
  "every_same tail = list_all (\<lambda>v. v = hd tail) tail"

definition addToEach :: "real \<Rightarrow> string list \<Rightarrow> dist \<Rightarrow> dist" where
  "addToEach addEach others adj = fold (\<lambda>k a. a(k := a k + addEach)) others adj"

section \<open>iv-redblack-advanced.cjs\<close>

definition STREAK_BONUS_adv :: real where
  "STREAK_BONUS_adv = 6 / 100"

definition DECAY_adv :: real where
  "DECAY_adv = 985 / 1000"

text \<open>An entry \<^verbatim>\<open>{ts, outcome}\<close> of the history; the outcome is whatever string the file holds.\<close>

record entry =
  ts :: int
  outcome :: string

text \<open>\<^verbatim>\<open>applyStreakBias(probs, historyList)\<close>: no renormalisation, the adjusted copy is returned.\<close>

definition applyStreakBias_adv :: "dist \<Rightarrow> string list \<Rightarrow> dist" where
  "applyStreakBias_adv probs historyList =
     (if length historyList < STREAK_WINDOW then probs
      else
        let tail = slice_last STREAK_WINDOW historyList in
        if every_same tail \<and> hd tail \<in> set OUTCOMES then
          let repeated = hd tail;
              shift = min STREAK_BONUS_adv (probs repeated * (1 / 2));
              adj = probs(repeated := max 0 (probs repeated - shift));
              others = filter (\<lambda>k. k \<noteq> repeated) OUTCOMES;
              addEach = shift / max 1 (real (length others))
          in addToEach addEach others adj
        else probs)"

text \<open>
  \<^verbatim>\<open>recordOutcome(outcome)\<close>. The persisted history (what \<^verbatim>\<open>loadHistory\<close> parses from
  the data file) is passed in and the saved history is returned. \<open>now1\<close> is the
  reading of \<^verbatim>\<open>Date.now()\<close> in the test of the \<^verbatim>\<open>if\<close>, \<open>now2\<close> the reading at the push.
  The argument is \<open>None\<close> for \<^verbatim>\<open>null\<close>; \<^verbatim>\<open>null\<close> and the empty string are the falsy
  arguments, on which the function returns at once.
\<close>

definition recordOutcome :: "int \<Rightarrow> int \<Rightarrow> string option \<Rightarrow> entry list \<Rightarrow> entry list" where
  "recordOutcome now1 now2 observed history =
     (case observed of
        None \<Rightarrow> history
      | Some oc \<Rightarrow>
          if oc = [] then history
          else
            let lastEntry = (if history = [] then None else Some (last history));
                lastOutcome = map_option outcome lastEntry
            in case lastEntry of
                 Some e \<Rightarrow>
                   if lastOutcome = Some oc \<and> now1 - ts e < 2000 then history
                   else history @ [\<lparr>ts = now2, outcome = oc\<rparr>]
               | None \<Rightarrow> history @ [\<lparr>ts = now2, outcome = oc\<rparr>])"

subsection \<open>Markov rows and the decayed marginal\<close>

definition markov_step_adv :: "entry list \<Rightarrow> nat \<Rightarrow> (string \<Rightarrow> dist) \<Rightarrow> (string \<Rightarrow> dist)" where
  "markov_step_adv history i counts =
     (let prev = outcome (history ! (i - 1));
          cur = outcome (history ! i)
      in if prev \<notin> set OUTCOMES \<or> cur \<notin> set OUTCOMES then counts
         else
           let age = length history - 1 - i;
               w = DECAY_adv ^ age
           in counts(prev := (counts prev)(cur := counts prev cur + w)))"

definition markovCounts_adv :: "entry list \<Rightarrow> string \<Rightarrow> dist" where
  "markovCounts_adv history =
     fold (markov_step_adv history) [1..<length history] (\<lambda>a. fromEntries OUTCOMES 0)"

text \<open>\<^verbatim>\<open>buildMarkov(history)\<close>: one row for each member of the alphabet, no row for another key.\<close>

definition buildMarkov :: "entry list \<Rightarrow> (string \<rightharpoonup> dist)" where
  "buildMarkov history =
     (let counts = markovCounts_adv history in
      (\<lambda>a. if a \<in> set OUTCOMES then
             Some (let row = counts a;
                       s = sumValues OUTCOMES row
                   in if s = 0 then fromEntries OUTCOMES (1 / real (length OUTCOMES))
                      else (\<lambda>b. if b \<in> set OUTCOMES then row b / s else 0))
           else None))"

definition marginal_step :: "entry list \<Rightarrow> nat \<Rightarrow> dist \<Rightarrow> dist" where
  "marginal_step history i counts =
     (let k = outcome (history ! i);
          age = length history - 1 - i;
          w = DECAY_adv ^ age
      in counts(k := counts k + w))"

text \<open>
  \<^verbatim>\<open>buildMarginal(history)\<close>. An outcome outside the alphabet adds the key to \<^verbatim>\<open>counts\<close> with
  the value \<open>NaN\<close> (\<^verbatim>\<open>undefined + w\<close>), which makes the sum of \<^verbatim>\<open>Object.values\<close> \<open>NaN\<close> and
  the divisor \<^verbatim>\<open>NaN || 1 = 1\<close>; the entries of the alphabet are not touched by it.
\<close>

definition buildMarginal :: "entry list \<Rightarrow> dist" where
  "buildMarginal history =
     (let counts = fold (marginal_step history) [0..<length history] (fromEntries OUTCOMES 0);
          t = sumValues OUTCOMES counts;
          s = (if list_ex (\<lambda>e. outcome e \<notin> set OUTCOMES) history then 1
               else if t = 0 then 1 else t)
      in (\<lambda>k. if k \<in> set OUTCOMES then counts k / s else 0))"

subsection \<open>Features\<close>

definition N_WINDOW :: nat where
  "N_WINDOW = 10"

text \<open>\<^verbatim>\<open>history.slice(start, end)\<close> for \<open>0 \<le> start\<close>.\<close>

definition slice :: "nat \<Rightarrow> nat \<Rightarrow> 'a list \<Rightarrow> 'a list" where
  "slice start end xs = drop start (take end xs)"

definition countOutcome :: "string \<Rightarrow> entry list \<Rightarrow> real" where
  "countOutcome k window = real (length (filter (\<lambda>e. outcome e = k) window))"

definition oneHot :: "bool \<Rightarrow> real" where
  "oneHot c = (if c then 1 else 0)"

text \<open>
  \<^verbatim>\<open>buildFeatureFromHistory(history, i)\<close>. \<open>hourOf t\<close> stands for
  \<^verbatim>\<open>dt.getHours() + dt.getMinutes() / 60\<close> of \<^verbatim>\<open>new Date(t)\<close> in the local time zone, \<open>now\<close> for
  \<^verbatim>\<open>Date.now()\<close>. The subtraction of natural numbers stops at 0, as \<^verbatim>\<open>Math.max(0, i - N_WINDOW)\<close>
  does. The vector has 17 entries.
\<close>

definition buildFeatureFromHistory :: "(int \<Rightarrow> real) \<Rightarrow> int \<Rightarrow> entry list \<Rightarrow> nat \<Rightarrow> real list" where
  "buildFeatureFromHistory hourOf now history i =
     (let start = i - N_WINDOW;
          window = slice start i history;
          windowLen = max 1 (real (length window));
          lastv = (if window \<noteq> [] then Some (outcome (last window)) else None);
          streak = (if window \<noteq> [] then
                      length (takeWhile (\<lambda>e. outcome e = outcome (last window)) (rev window))
                    else 0);
          pos = (if 0 < length history then length history mod 5 else 0);
          lastTs = (if window \<noteq> [] then ts (last window) else now);
          hour = hourOf lastTs;
          longWindow = slice (i - 200) i history;
          longLen = max 1 (real (length longWindow))
      in [countOutcome ''RED'' window / windowLen, countOutcome ''BLACK'' window / windowLen,
          countOutcome ''GREEN'' window / windowLen,
          oneHot (lastv = Some ''RED''), oneHot (lastv = Some ''BLACK''), oneHot (lastv = Some ''GREEN''),
          real (min streak 9) / 9]
         @ map (\<lambda>p. oneHot (pos = p)) [0..<5]
         @ [sin ((2 * pi * hour) / 24), cos ((2 * pi * hour) / 24),
            countOutcome ''RED'' longWindow / longLen, countOutcome ''BLACK'' longWindow / longLen,
            countOutcome ''GREEN'' longWindow / longLen])"

subsection \<open>The softmax classifier\<close>

definition EPOCHS :: nat where
  "EPOCHS = 120"

definition LR :: real where
  "LR = 5 / 100"

definition L2 :: real where
  "L2 = 1 / 1000"

definition K_adv :: nat where
  "K_adv = length OUTCOMES"

definition softmax :: "real list \<Rightarrow> real list" where
  "softmax arr =
     (if arr = [] then []
      else
        let mx = foldl max (hd arr) (tl arr);
            exps = map (\<lambda>v. exp (v - mx)) arr;
            t = foldl (+) 0 exps;
            sum = (if t = 0 then 1 else t)
        in map (\<lambda>e. e / sum) exps)"

text \<open>
  \<^verbatim>\<open>dotRowVec(row, vec)\<close> runs over the indices of \<open>row\<close>; it is meaningful where \<open>vec\<close> is
  at least as long (the source reads \<^verbatim>\<open>undefined\<close> beyond and returns \<open>NaN\<close>).
\<close>

definition dotRowVec :: "real list \<Rightarrow> real list \<Rightarrow> real" where
  "dotRowVec row vec = foldl (\<lambda>s i. s + row ! i * vec ! i) 0 [0..<length row]"

record softmax_model =
  mW :: "real list list"
  mb :: "real list"

text \<open>
  A model \<^verbatim>\<open>{W, b}\<close> of the shape \<^verbatim>\<open>trainSoftmax\<close> returns: one row of \<open>D\<close> weights and one
  bias for each outcome. On another shape the source throws or computes with \<open>NaN\<close>, and the embedding
  says nothing.
\<close>

definition wf_model :: "nat \<Rightarrow> softmax_model \<Rightarrow> bool" where
  "wf_model D m = (length (mW m) = K_adv \<and> length (mb m) = K_adv \<and> list_all (\<lambda>row. length row = D) (mW m))"

definition logitsOf :: "real list list \<Rightarrow> real list \<Rightarrow> real list \<Rightarrow> real list" where
  "logitsOf Wm bv x = map (\<lambda>k. dotRowVec (Wm ! k) x + bv ! k) [0..<K_adv]"

fun indexOf :: "string list \<Rightarrow> string \<Rightarrow> nat option" where
  "indexOf [] x = None"
| "indexOf (y # ys) x = (if x = y then Some 0 else map_option Suc (indexOf ys x))"

definition predictSoftmaxModel :: "softmax_model option \<Rightarrow> real list \<Rightarrow> dist option" where
  "predictSoftmaxModel model x =
     (case model of
        None \<Rightarrow> None
      | Some m \<Rightarrow>
          let probs = softmax (logitsOf (mW m) (mb m) x) in
          Some (\<lambda>k. case indexOf OUTCOMES k of Some j \<Rightarrow> probs ! j | None \<Rightarrow> 0))"

text \<open>
  The random source: the results of the calls of \<^verbatim>\<open>Math.random()\<close> still to come, in order.
\<close>

type_synonym rng = "nat \<Rightarrow> real"

definition draw :: "rng \<Rightarrow> real \<times> rng" where
  "draw r = (r 0, (\<lambda>n. r (Suc n)))"

fun draws :: "nat \<Rightarrow> rng \<Rightarrow> real list \<times> rng" where
  "draws 0 r = ([], r)"
| "draws (Suc n) r = (let (x, r1) = draw r; (xs, r2) = draws n r1 in (x # xs, r2))"

fun initRows :: "nat \<Rightarrow> nat \<Rightarrow> rng \<Rightarrow> real list list \<times> rng" where
  "initRows 0 D r = ([], r)"
| "initRows (Suc k) D r =
     (let (xs, r1) = draws D r;
          (rows, r2) = initRows k D r1
      in (map (\<lambda>x. (x - 1 / 2) * (1 / 100)) xs # rows, r2))"

text \<open>The Fisher-Yates loop \<^verbatim>\<open>for (let i = N - 1; i > 0; i--)\<close>, started at \<open>i\<close>.\<close>

fun shuffle :: "nat \<Rightarrow> nat list \<Rightarrow> rng \<Rightarrow> nat list \<times> rng" where
  "shuffle 0 idx r = (idx, r)"
| "shuffle (Suc i) idx r =
     (let (x, r1) = draw r;
          j = nat \<lfloor>x * real (Suc i + 1)\<rfloor>
      in shuffle i (idx[Suc i := idx ! j, j := idx ! Suc i]) r1)"

definition label_at :: "nat list \<Rightarrow> nat \<Rightarrow> nat option" where
  "label_at Y i = (if i < length Y then Some (Y ! i) else None)"

definition sampleErr :: "real list list \<Rightarrow> real list \<Rightarrow> real list \<Rightarrow> nat option \<Rightarrow> real list" where
  "sampleErr Wm bv x y =
     (let probs = softmax (logitsOf Wm bv x)
      in map (\<lambda>k. probs ! k - (if y = Some k then 1 else 0)) [0..<K_adv])"

text \<open>One mini-batch: the gradients of the samples \<open>batch\<close> at the current weights, then the update.\<close>

definition batchUpdate ::
  "real \<Rightarrow> real \<Rightarrow> nat \<Rightarrow> real list list \<Rightarrow> nat list \<Rightarrow> nat list \<Rightarrow> real list list \<times> real list
     \<Rightarrow> real list list \<times> real list" where
  "batchUpdate lr l2 D X Y batch Wb =
     (let Wm = fst Wb; bv = snd Wb;
          errs = map (\<lambda>i. (X ! i, sampleErr Wm bv (X ! i) (label_at Y i))) batch;
          gradb = map (\<lambda>k. foldl (+) 0 (map (\<lambda>(x, e). e ! k) errs)) [0..<K_adv];
          gradW = map (\<lambda>k. map (\<lambda>d. foldl (+) 0 (map (\<lambda>(x, e). e ! k * x ! d) errs)) [0..<D]) [0..<K_adv];
          bs = (if length batch = 0 then 1 else real (length batch))
      in (map (\<lambda>k. map (\<lambda>d. Wm ! k ! d - lr * (gradW ! k ! d / bs + l2 * Wm ! k ! d)) [0..<D]) [0..<K_adv],
          map (\<lambda>k. bv ! k - lr * (gradb ! k / bs)) [0..<K_adv]))"

definition batchStarts :: "nat \<Rightarrow> nat \<Rightarrow> nat list" where
  "batchStarts N batchSize = filter (\<lambda>s. s mod batchSize = 0) [0..<N]"

definition epochStep ::
  "real \<Rightarrow> real \<Rightarrow> nat \<Rightarrow> nat \<Rightarrow> real list list \<Rightarrow> nat list
     \<Rightarrow> (real list list \<times> real list) \<times> rng \<Rightarrow> (real list list \<times> real list) \<times> rng" where
  "epochStep lr l2 D batchSize X Y st =
     (let N = length X;
          (idx, r1) = shuffle (N - 1) [0..<N] (snd st)
      in (fold (\<lambda>bstart. batchUpdate lr l2 D X Y (slice bstart (min N (bstart + batchSize)) idx))
            (batchStarts N batchSize) (fst st), r1))"

record train_opts =
  opt_lr :: real
  opt_epochs :: nat
  opt_l2 :: real

text \<open>
  \<^verbatim>\<open>trainSoftmax(X, Y, opts)\<close>; an option that is 0 (or left out) is replaced by the default,
  as \<^verbatim>\<open>opts.lr || LR\<close> does.
\<close>

definition trainSoftmax ::
  "real list list \<Rightarrow> nat list \<Rightarrow> train_opts \<Rightarrow> rng \<Rightarrow> softmax_model option \<times> rng" where
  "trainSoftmax X Y opts r =
     (let N = length X in
      if N = 0 then (None, r)
      else
        let D = length (hd X);
            lr = (if opt_lr opts = 0 then LR else opt_lr opts);
            epochs = (if opt_epochs opts = 0 then EPOCHS else opt_epochs opts);
            l2 = (if opt_l2 opts = 0 then L2 else opt_l2 opts);
            batchSize = min 64 (max 8 (N div 8));
            (W0, r0) = initRows K_adv D r;
            st = fold (\<lambda>ep. epochStep lr l2 D batchSize X Y) [0..<epochs] ((W0, replicate K_adv 0), r0)
        in (Some \<lparr>mW = fst (fst st), mb = snd (fst st)\<rparr>, snd st))"

subsection \<open>The ensemble and the pick\<close>

definition MIX_MARKOV :: real where
  "MIX_MARKOV = 35 / 100"

definition MIX_LOGREG :: real where
  "MIX_LOGREG = 55 / 100"

definition MIX_MARG :: real where
  "MIX_MARG = 10 / 100"

definition ensemblePredict ::
  "(int \<Rightarrow> real) \<Rightarrow> int \<Rightarrow> entry list \<Rightarrow> softmax_model option \<Rightarrow> dist" where
  "ensemblePredict hourOf now history model =
     (let margl = buildMarginal history;
          markov = buildMarkov history;
          i = length history;
          feat = buildFeatureFromHistory hourOf now history i;
          logregProbs = (case predictSoftmaxModel model feat of
                           Some probs \<Rightarrow> probs
                         | None \<Rightarrow> fromEntries OUTCOMES (1 / real (length OUTCOMES)));
          markovProbs = (if history \<noteq> [] then
                           (case markov (outcome (last history)) of
                              Some row \<Rightarrow> if outcome (last history) \<noteq> [] then row else margl
                            | None \<Rightarrow> margl)
                         else margl);
          combined = (\<lambda>k. if k \<in> set OUTCOMES then
                             MIX_LOGREG * logregProbs k + MIX_MARKOV * markovProbs k + MIX_MARG * margl k
                           else 0);
          cl = applyStreakBias_adv combined (map outcome history);
          t = sumValues OUTCOMES cl;
          total = (if t = 0 then 1 else t)
      in (\<lambda>k. cl k / total))"

text \<open>
  \<^verbatim>\<open>argmaxWithRandomTie(dist)\<close> on an object given by its entries in key order. \<open>None\<close>
  as the running maximum is \<^verbatim>\<open>-Infinity\<close>; the result \<open>None\<close> is \<^verbatim>\<open>undefined\<close>. One random
  number is drawn unless there is exactly one candidate.
\<close>

definition tol :: real where
  "tol = 1 / 10 ^ 9"

definition bestOf :: "(string \<times> real) list \<Rightarrow> real option" where
  "bestOf entries =
     fold (\<lambda>(k, v) bestP. case bestP of None \<Rightarrow> Some v | Some p \<Rightarrow> if v > p then Some v else Some p)
       entries None"

definition candidatesOf :: "(string \<times> real) list \<Rightarrow> string list" where
  "candidatesOf entries =
     (case bestOf entries of
        None \<Rightarrow> []
      | Some bestP \<Rightarrow> map fst (filter (\<lambda>(k, v). \<bar>v - bestP\<bar> \<le> tol) entries))"

definition nth_opt :: "'a list \<Rightarrow> nat \<Rightarrow> 'a option" where
  "nth_opt xs i = (if i < length xs then Some (xs ! i) else None)"

definition argmaxWithRandomTie :: "(string \<times> real) list \<Rightarrow> rng \<Rightarrow> string option \<times> rng" where
  "argmaxWithRandomTie entries r =
     (let candidates = candidatesOf entries in
      if length candidates = 1 then (Some (candidates ! 0), r)
      else
        let (x, r1) = draw r
        in (nth_opt candidates (nat \<lfloor>x * real (length candidates)\<rfloor>), r1))"

definition entriesOf :: "string list \<Rightarrow> dist \<Rightarrow> (string \<times> real) list" where
  "entriesOf keys d = map (\<lambda>k. (k, d k)) keys"

subsection \<open>Walk-forward evaluation\<close>

text \<open>
  The state of the loop of \<^verbatim>\<open>walkForwardEvaluate\<close>: the counters, the random source, and
  (not in the source, kept to state what was predicted) the list \<open>made\<close> of the rounds
  predicted so far, each with its distribution and pick.
\<close>

record wf_state =
  correct :: nat
  tested :: nat
  perTotal :: "string \<Rightarrow> nat"
  perCorrect :: "string \<Rightarrow> nat"
  source :: rng
  made :: "(nat \<times> dist \<times> string option) list"

definition wf_opts :: train_opts where
  "wf_opts = \<lparr>opt_lr = 8 / 100, opt_epochs = 60, opt_l2 = 2 / 1000\<rparr>"

text \<open>
  The part of the loop body up to the pick for round \<open>i\<close>: \<open>None\<close> when the body takes
  \<^verbatim>\<open>continue\<close> (fewer than 10 training rows).
\<close>

definition wf_predict ::
  "(int \<Rightarrow> real) \<Rightarrow> int \<Rightarrow> entry list \<Rightarrow> nat \<Rightarrow> rng \<Rightarrow> ((dist \<times> string option) \<times> rng) option" where
  "wf_predict hourOf now history i r =
     (let trainHist = slice 0 i history;
          js = [N_WINDOW..<length trainHist];
          X = map (\<lambda>j. buildFeatureFromHistory hourOf now trainHist j) js;
          Y = List.map_filter (\<lambda>j. indexOf OUTCOMES (outcome (trainHist ! j))) js
      in if length X < 10 then None
         else
           let (model, r1) = trainSoftmax X Y wf_opts r;
               d = ensemblePredict hourOf now trainHist model;
               (pick, r2) = argmaxWithRandomTie (entriesOf OUTCOMES d) r1
           in Some ((d, pick), r2))"

text \<open>
  The whole body for round \<open>i\<close>. \<^verbatim>\<open>perOutcome[testSample.outcome].total++\<close> throws a
  \<^verbatim>\<open>TypeError\<close> when the outcome of the test sample is no member of the alphabet.
\<close>

definition wf_step ::
  "(int \<Rightarrow> real) \<Rightarrow> int \<Rightarrow> entry list \<Rightarrow> nat \<Rightarrow> wf_state \<Rightarrow> wf_state \<times> error option" where
  "wf_step hourOf now history i st =
     (case wf_predict hourOf now history i (source st) of
        None \<Rightarrow> (st, None)
      | Some ((d, pick), r2) \<Rightarrow>
          let testSample = history ! i;
              k = outcome testSample;
              st1 = st\<lparr>source := r2, made := made st @ [(i, d, pick)]\<rparr>
          in if k \<notin> set OUTCOMES then (st1, Some TypeError)
             else
               let st2 = st1\<lparr>perTotal := (perTotal st1)(k := perTotal st1 k + 1)\<rparr>;
                   st3 = (if pick = Some k
                          then st2\<lparr>perCorrect := (perCorrect st2)(k := perCorrect st2 k + 1),
                                  correct := correct st2 + 1\<rparr>
                          else st2)
               in (st3\<lparr>tested := tested st3 + 1\<rparr>, None))"

fun wf_loop ::
  "(int \<Rightarrow> real) \<Rightarrow> int \<Rightarrow> entry list \<Rightarrow> nat list \<Rightarrow> wf_state \<Rightarrow> wf_state \<times> error option" where
  "wf_loop hourOf now history [] st = (st, None)"
| "wf_loop hourOf now history (i # rest) st =
     (case wf_step hourOf now history i st of
        (st1, Some e) \<Rightarrow> (st1, Some e)
      | (st1, None) \<Rightarrow> wf_loop hourOf now history rest st1)"

definition minTrainOf :: "nat \<Rightarrow> nat" where
  "minTrainOf optMinTrain = (if optMinTrain = 0 then max 20 (N_WINDOW + 5) else optMinTrain)"

definition wf_init :: "rng \<Rightarrow> wf_state" where
  "wf_init r = \<lparr>correct = 0, tested = 0, perTotal = (\<lambda>k. 0), perCorrect = (\<lambda>k. 0), source = r, made = []\<rparr>"

text \<open>The run of the loop of \<^verbatim>\<open>walkForwardEvaluate(history, options)\<close>, with the early return.\<close>

definition wf_run ::
  "(int \<Rightarrow> real) \<Rightarrow> int \<Rightarrow> entry list \<Rightarrow> nat \<Rightarrow> rng \<Rightarrow> wf_state \<times> error option" where
  "wf_run hourOf now history optMinTrain r =
     (let minTrain = minTrainOf optMinTrain in
      if length history \<le> minTrain then (wf_init r, None)
      else wf_loop hourOf now history [minTrain..<length history] (wf_init r))"

record wf_result =
  res_tested :: nat
  res_accuracy :: real
  res_perOutcome :: "string \<rightharpoonup> nat \<times> nat"

definition walkForwardEvaluate_adv ::
  "(int \<Rightarrow> real) \<Rightarrow> int \<Rightarrow> entry list \<Rightarrow> nat \<Rightarrow> rng \<Rightarrow> error + wf_result" where
  "walkForwardEvaluate_adv hourOf now history optMinTrain r =
     (if length history \<le> minTrainOf optMinTrain
      then Inr \<lparr>res_tested = 0, res_accuracy = 0, res_perOutcome = Map.empty\<rparr>
      else
        case wf_run hourOf now history optMinTrain r of
          (st, Some e) \<Rightarrow> Inl e
        | (st, None) \<Rightarrow>
            Inr \<lparr>res_tested = tested st,
                 res_accuracy = (if tested st \<noteq> 0 then real (correct st) / real (tested st) else 0),
                 res_perOutcome = (\<lambda>k. if k \<in> set OUTCOMES then Some (perTotal st k, perCorrect st k)
                                       else None)\<rparr>)"

text \<open>The prediction made for round \<open>i\<close>, if the evaluator made one.\<close>

definition predictionFor_adv ::
  "(int \<Rightarrow> real) \<Rightarrow> int \<Rightarrow> entry list \<Rightarrow> nat \<Rightarrow> rng \<Rightarrow> nat \<Rightarrow> (dist \<times> string option) option" where
  "predictionFor_adv hourOf now history optMinTrain r i =
     map_of (made (fst (wf_run hourOf now history optMinTrain r))) i"

section \<open>index.cjs (redblack\_predictor\_fixed)\<close>

definition STREAK_BONUS_rb :: real where
  "STREAK_BONUS_rb = 8 / 100"

definition DECAY_rb :: real where
  "DECAY_rb = 985 / 1000"

definition ALPHA :: real where
  "ALPHA = 1 / 2"

definition MIX_GLOBAL_rb :: real where
  "MIX_GLOBAL_rb = 20 / 100"

text \<open>\<^verbatim>\<open>normalizeDict(obj)\<close>: the divisor is the sum of the values, or 1 when that sum is 0.\<close>

definition normalizeDict :: "dist \<Rightarrow> dist" where
  "normalizeDict obj =
     (let s = sumValues OUTCOMES obj;
          sum = (if s = 0 then 1 else s)
      in (\<lambda>k. obj k / sum))"

text \<open>\<^verbatim>\<open>applyStreakBias(probs, history)\<close> of index.cjs: the adjusted copy is renormalised.\<close>

definition applyStreakBias_rb :: "dist \<Rightarrow> string list \<Rightarrow> dist" where
  "applyStreakBias_rb probs history =
     (if length history < STREAK_WINDOW then probs
      else
        let tail = slice_last STREAK_WINDOW history in
        if every_same tail \<and> hd tail \<in> set OUTCOMES then
          let repeated = hd tail;
              shift = min STREAK_BONUS_rb (probs repeated * (1 / 2));
              adj = probs(repeated := max 0 (probs repeated - shift));
              others = filter (\<lambda>k. k \<noteq> repeated) OUTCOMES;
              addEach = shift / real (length others)
          in normalizeDict (addToEach addEach others adj)
        else probs)"

text \<open>
  The model state of index.cjs: \<^verbatim>\<open>lastOutcome\<close>, the transition counts \<^verbatim>\<open>trans\<close> and the
  marginal counts \<^verbatim>\<open>marg\<close>, every count starting at \<open>ALPHA\<close>.
\<close>

record model_rb =
  lastOutcome :: "string option"
  trans :: "string \<Rightarrow> dist"
  marg :: dist

definition init_rb :: model_rb where
  "init_rb = \<lparr>lastOutcome = None,
               trans = (\<lambda>a. if a \<in> set OUTCOMES then fromEntries OUTCOMES ALPHA else (\<lambda>b. 0)),
               marg = fromEntries OUTCOMES ALPHA\<rparr>"

definition decayCounts :: "model_rb \<Rightarrow> model_rb" where
  "decayCounts m =
     m\<lparr>marg := (\<lambda>a. if a \<in> set OUTCOMES then marg m a * DECAY_rb else marg m a),
       trans := (\<lambda>a b. if a \<in> set OUTCOMES \<and> b \<in> set OUTCOMES then trans m a b * DECAY_rb
                        else trans m a b)\<rparr>"

text \<open>
  \<^verbatim>\<open>updateModel(observed)\<close>; every caller passes a member of the alphabet (the regular
  expression match of the monitor loop, or the \<^verbatim>\<open>OUTCOMES.includes\<close> filter of the replay),
  and the embedding is meant for such arguments only.
\<close>

definition updateModel :: "string \<Rightarrow> model_rb \<Rightarrow> model_rb" where
  "updateModel observed m0 =
     (let m = decayCounts m0;
          m1 = m\<lparr>marg := (marg m)(observed := marg m observed + 1)\<rparr>;
          m2 = (case lastOutcome m1 of
                  Some l \<Rightarrow>
                    if l \<noteq> [] then
                      m1\<lparr>trans := (trans m1)(l := (trans m1 l)(observed := trans m1 l observed + 1))\<rparr>
                    else m1
                | None \<Rightarrow> m1)
      in m2\<lparr>lastOutcome := Some observed\<rparr>)"

definition predictDistribution :: "model_rb \<Rightarrow> string list \<Rightarrow> dist" where
  "predictDistribution m historySnapshot =
     (let baseCond = (case lastOutcome m of
                        Some l \<Rightarrow> if l \<in> set OUTCOMES then normalizeDict (trans m l)
                                  else normalizeDict (marg m)
                      | None \<Rightarrow> normalizeDict (marg m));
          global = normalizeDict (marg m);
          blended = (\<lambda>k. if k \<in> set OUTCOMES
                         then (1 - MIX_GLOBAL_rb) * baseCond k + MIX_GLOBAL_rb * global k else 0);
          biased = applyStreakBias_rb blended historySnapshot
      in normalizeDict biased)"

section \<open>sportypredictor.cjs\<close>

definition GAMES_PER_ROUND :: nat where
  "GAMES_PER_ROUND = 5"

definition DECAY_sp :: real where
  "DECAY_sp = 97 / 100"

definition MIX_GLOBAL_sp :: real where
  "MIX_GLOBAL_sp = 25 / 100"

definition STREAK_BONUS_sp :: real where
  "STREAK_BONUS_sp = 6 / 100"

text \<open>An entry \<^verbatim>\<open>{ts, games}\<close> of the history; the field \<^verbatim>\<open>ts\<close> is called \<open>rts\<close> here.\<close>

record round =
  rts :: int
  games :: "string list"

subsection \<open>Parsing a round\<close>

text \<open>
  Strings are lists of 8-bit characters. The white space of \<^verbatim>\<open>\s\<close> and \<^verbatim>\<open>trim\<close> in that
  range is tab, line feed, vertical tab, form feed, carriage return, space and the
  no-break space. \<^verbatim>\<open>toUpperCase\<close> is modelled on the lower-case ASCII letters; the source
  maps no other character to a letter of the alphabet R, B, G, so the alphabet test is the
  same.
\<close>

definition is_space :: "char \<Rightarrow> bool" where
  "is_space c = (of_char c \<in> {9, 10, 11, 12, 13, 32, 160 :: nat})"

definition replace_commas :: "string \<Rightarrow> string" where
  "replace_commas raw = map (\<lambda>c. if c = CHR '','' then CHR '' '' else c) raw"

definition trim :: "string \<Rightarrow> string" where
  "trim s = rev (dropWhile is_space (rev (dropWhile is_space s)))"

text \<open>
  \<^verbatim>\<open>s.split(/\s+/)\<close>: the pieces between the maximal runs of white space, an empty piece
  before a leading run and after a trailing one, and one empty piece for the empty string.
  \<open>cur\<close> is the piece read so far (reversed), \<open>insp\<close> says that the last character closed
  a piece.
\<close>

fun split_ws :: "string \<Rightarrow> bool \<Rightarrow> string \<Rightarrow> string list" where
  "split_ws cur insp [] = [rev cur]"
| "split_ws cur insp (c # cs) =
     (if is_space c then (if insp then split_ws cur True cs else rev cur # split_ws [] True cs)
      else split_ws (c # cur) False cs)"

definition toUpperCase_char :: "char \<Rightarrow> char" where
  "toUpperCase_char c =
     (let n = (of_char c :: nat) in if 97 \<le> n \<and> n \<le> 122 then char_of (n - 32) else c)"

definition toUpperCase :: "string \<Rightarrow> string" where
  "toUpperCase t = map toUpperCase_char t"

fun join :: "string \<Rightarrow> string list \<Rightarrow> string" where
  "join sep [] = []"
| "join sep [x] = x"
| "join sep (x # y # ys) = x @ sep @ join sep (y # ys)"

definition parseRoundInput :: "string \<Rightarrow> error + string list" where
  "parseRoundInput raw =
     (let tokens = map toUpperCase (split_ws [] False (trim (replace_commas raw))) in
      if length tokens \<noteq> GAMES_PER_ROUND then
        Inl (InputError (''Need exactly 5 outcomes ('' @ join ''/'' OUTCOMES_sp @ '').''))
      else if \<not> list_all (\<lambda>t. t \<in> set OUTCOMES_sp) tokens then
        Inl (InputError (''Outcomes must be one of '' @ join '','' OUTCOMES_sp))
      else Inr tokens)"

text \<open>
  The \<^verbatim>\<open>add\<close> branch of the line handler of \<^verbatim>\<open>runCLI\<close>: \<open>rest\<close> are the words after the
  command, \<open>now\<close> is \<^verbatim>\<open>Date.now()\<close>. The result is the history afterwards and the error
  message printed by the \<^verbatim>\<open>catch\<close>, if any.
\<close>

definition cmd_add :: "int \<Rightarrow> string list \<Rightarrow> round list \<Rightarrow> round list \<times> error option" where
  "cmd_add now rest history =
     (let raw = join '' '' rest in
      case parseRoundInput raw of
        Inl e \<Rightarrow> (history, Some e)
      | Inr tokens \<Rightarrow> (history @ [\<lparr>rts = now, games = tokens\<rparr>], None))"

subsection \<open>Counts and posteriors\<close>

text \<open>\<^verbatim>\<open>round[s]\<close>, with \<open>None\<close> for \<^verbatim>\<open>undefined\<close>, and \<^verbatim>\<open>OUTCOMES.includes\<close> on such a value.\<close>

definition games_at :: "round \<Rightarrow> nat \<Rightarrow> string option" where
  "games_at r s = (if s < length (games r) then Some (games r ! s) else None)"

definition includes_sp :: "string option \<Rightarrow> bool" where
  "includes_sp v = (case v of Some k \<Rightarrow> k \<in> set OUTCOMES_sp | None \<Rightarrow> False)"

definition recencyWeights :: "nat \<Rightarrow> real list" where
  "recencyWeights n = map (\<lambda>i. DECAY_sp ^ ((n - 1) - i)) [0..<n]"

text \<open>\<^verbatim>\<open>normalize(obj)\<close>: the divisor is the sum of the values, or 1 when that sum is 0.\<close>

definition normalize_sp :: "dist \<Rightarrow> dist" where
  "normalize_sp obj =
     (let s = sumValues OUTCOMES_sp obj;
          sum = (if s = 0 then 1 else s)
      in (\<lambda>k. obj k / sum))"

text \<open>
  The count tables of \<^verbatim>\<open>buildModels\<close>: per slot, global, per slot and previous outcome, and
  per key of the previous round. Every bucket starts at \<open>ALPHA\<close>; a pattern key gets its
  rows when it is first met.
\<close>

record counts_sp =
  slotCounts :: "dist list"
  globalCounts :: dist
  markovCounts :: "(string \<Rightarrow> dist) list"
  patternCounts :: "string \<rightharpoonup> dist list"

definition freshSlots :: "dist list" where
  "freshSlots = replicate GAMES_PER_ROUND (fromEntries OUTCOMES_sp ALPHA)"

definition init_counts :: counts_sp where
  "init_counts =
     \<lparr>slotCounts = freshSlots,
      globalCounts = fromEntries OUTCOMES_sp ALPHA,
      markovCounts = replicate GAMES_PER_ROUND
         (\<lambda>prev. if prev \<in> set OUTCOMES_sp then fromEntries OUTCOMES_sp ALPHA else (\<lambda>k. 0)),
      patternCounts = Map.empty\<rparr>"

text \<open>The three inner loops over the slot \<open>s\<close> of one round, weight \<open>wi\<close>.\<close>

definition slot_step :: "real \<Rightarrow> round \<Rightarrow> nat \<Rightarrow> counts_sp \<Rightarrow> counts_sp" where
  "slot_step wi rnd s c =
     (case games_at rnd s of
        Some k \<Rightarrow>
          if k \<in> set OUTCOMES_sp then
            c\<lparr>slotCounts := (slotCounts c)[s := (slotCounts c ! s)(k := (slotCounts c ! s) k + wi)],
              globalCounts := (globalCounts c)(k := globalCounts c k + wi)\<rparr>
          else c
      | None \<Rightarrow> c)"

definition markov_step :: "real \<Rightarrow> round \<Rightarrow> round \<Rightarrow> nat \<Rightarrow> counts_sp \<Rightarrow> counts_sp" where
  "markov_step wi prev rnd s c =
     (case (games_at prev s, games_at rnd s) of
        (Some p, Some cur) \<Rightarrow>
          if p \<in> set OUTCOMES_sp \<and> cur \<in> set OUTCOMES_sp then
            c\<lparr>markovCounts := (markovCounts c)
                 [s := (markovCounts c ! s)(p := ((markovCounts c ! s) p)(cur := (markovCounts c ! s) p cur + wi))]\<rparr>
          else c
      | _ \<Rightarrow> c)"

definition pattern_step :: "real \<Rightarrow> round \<Rightarrow> nat \<Rightarrow> dist list \<Rightarrow> dist list" where
  "pattern_step wi rnd s row =
     (case games_at rnd s of
        Some cur \<Rightarrow> if cur \<in> set OUTCOMES_sp then row[s := (row ! s)(cur := (row ! s) cur + wi)] else row
      | None \<Rightarrow> row)"

text \<open>The body of the loop over the rounds: round \<open>i\<close> of \<open>history\<close> with weight \<open>w ! i\<close>.\<close>

definition round_step :: "round list \<Rightarrow> real list \<Rightarrow> nat \<Rightarrow> counts_sp \<Rightarrow> counts_sp" where
  "round_step history w i c0 =
     (let rnd = history ! i;
          wi = w ! i;
          c1 = fold (slot_step wi rnd) [0..<GAMES_PER_ROUND] c0;
          c2 = (if 0 < i then fold (markov_step wi (history ! (i - 1)) rnd) [0..<GAMES_PER_ROUND] c1
                else c1)
      in if 0 < i then
           let key = join '','' (games (history ! (i - 1)));
               row0 = (case patternCounts c2 key of Some row \<Rightarrow> row | None \<Rightarrow> freshSlots);
               row = fold (pattern_step wi rnd) [0..<GAMES_PER_ROUND] row0
           in c2\<lparr>patternCounts := (patternCounts c2)(key \<mapsto> row)\<rparr>
         else c2)"

text \<open>The counting half of \<^verbatim>\<open>buildModels(history)\<close>, then the normalising half.\<close>

definition buildCounts :: "round list \<Rightarrow> counts_sp" where
  "buildCounts history =
     (let n = length history in
      if 0 < n then fold (round_step history (recencyWeights n)) [0..<n] init_counts
      else init_counts)"

record models_sp =
  slotPosteriors :: "dist list"
  globalPosterior :: dist
  markovProbs :: "(string \<rightharpoonup> dist) list"
  patternProbs :: "string \<rightharpoonup> dist list"

definition buildModels :: "round list \<Rightarrow> models_sp" where
  "buildModels history =
     (let c = buildCounts history in
      \<lparr>slotPosteriors = map normalize_sp (slotCounts c),
       globalPosterior = normalize_sp (globalCounts c),
       markovProbs = map (\<lambda>slotObj prev. if prev \<in> set OUTCOMES_sp then Some (normalize_sp (slotObj prev))
                                          else None) (markovCounts c),
       patternProbs = (\<lambda>key. map_option (map normalize_sp) (patternCounts c key))\<rparr>)"

subsection \<open>Ensemble prediction\<close>

text \<open>
  \<^verbatim>\<open>applyStreakAdjustment(probs, history, slotIndex)\<close>. The last division has no guard in
  the source; where the sum is 0 the source yields \<open>NaN\<close> and nothing is claimed here.
\<close>

definition applyStreakAdjustment :: "dist \<Rightarrow> round list \<Rightarrow> nat \<Rightarrow> dist" where
  "applyStreakAdjustment probs history slotIndex =
     (let n = length history in
      if n < STREAK_WINDOW then probs
      else
        let tail = slice_last STREAK_WINDOW history;
            vals = map (\<lambda>r. games_at r slotIndex) tail
        in if every_same vals \<and> includes_sp (hd vals) then
             let otherOutcomes = filter (\<lambda>k. Some k \<noteq> hd vals) OUTCOMES_sp in
             if length otherOutcomes = 0 then probs
             else
               let transferPerOther = STREAK_BONUS_sp / real (length otherOutcomes);
                   adj = fold (\<lambda>opp a. a(opp := min 1 (a opp + transferPerOther))) otherOutcomes probs;
                   sum = sumValues OUTCOMES_sp adj
               in (\<lambda>k. adj k / sum)
           else probs)"

record weights =
  slot :: real
  markov :: real
  pattern :: real
  streak :: real

text \<open>The initial values of the globals \<^verbatim>\<open>W_SLOT\<close>, \<^verbatim>\<open>W_MARKOV\<close>, \<^verbatim>\<open>W_PATTERN\<close>, \<^verbatim>\<open>W_STREAK\<close>.\<close>

definition W_default :: weights where
  "W_default = \<lparr>slot = 50 / 100, markov = 35 / 100, pattern = 12 / 100, streak = 3 / 100\<rparr>"

definition normalizeWeights :: "weights \<Rightarrow> weights" where
  "normalizeWeights w =
     (let s = slot w + markov w + pattern w + streak w;
          sumW = (if s = 0 then 1 else s)
      in \<lparr>slot = slot w / sumW, markov = markov w / sumW, pattern = pattern w / sumW,
          streak = streak w / sumW\<rparr>)"

text \<open>
  The body of the loop over the slots of \<^verbatim>\<open>predictEnsemble\<close>: first the slot posterior
  blended with the global one (\<^verbatim>\<open>slotWithGlobal\<close>), then the blended distribution of slot \<open>s\<close>.
\<close>

definition slotWithGlobal :: "models_sp \<Rightarrow> nat \<Rightarrow> dist" where
  "slotWithGlobal models s =
     (let slotP = slotPosteriors models ! s
      in (\<lambda>k. if k \<in> set OUTCOMES_sp
               then (1 - MIX_GLOBAL_sp) * slotP k + MIX_GLOBAL_sp * globalPosterior models k
               else 0))"

definition blendSlot :: "weights \<Rightarrow> round list \<Rightarrow> models_sp \<Rightarrow> nat \<Rightarrow> dist" where
  "blendSlot ns history models s =
     (let uniform = fromEntries OUTCOMES_sp (1 / real (length OUTCOMES_sp));
          markovP = (if 0 < length history then
                       (case games_at (last history) s of
                          Some prev \<Rightarrow>
                            if prev \<in> set OUTCOMES_sp \<and> s < length (markovProbs models) then
                              (case (markovProbs models ! s) prev of Some row \<Rightarrow> row | None \<Rightarrow> uniform)
                            else uniform
                        | None \<Rightarrow> uniform)
                     else uniform);
          lastRoundKey = (if history \<noteq> [] then join '','' (games (last history)) else []);
          patternP = (if lastRoundKey \<noteq> [] then
                        (case patternProbs models lastRoundKey of
                           Some rows \<Rightarrow> Some (rows ! s)
                         | None \<Rightarrow> None)
                      else None);
          combined = (\<lambda>k. if k \<in> set OUTCOMES_sp then
                         let p_slot = slotWithGlobal models s k;
                             p_markov = markovP k;
                             p_pattern = (case patternP of Some pp \<Rightarrow> pp k | None \<Rightarrow> p_slot)
                         in slot ns * p_slot + markov ns * p_markov + pattern ns * p_pattern
                       else 0);
          withStreak = applyStreakAdjustment combined history s
      in normalize_sp withStreak)"

text \<open>The pick of a slot: the first outcome, replaced by a later one only when strictly larger.\<close>

definition pickBest :: "dist \<Rightarrow> string" where
  "pickBest d =
     fst (fold (\<lambda>k (best, bestP). if d k > bestP then (k, d k) else (best, bestP))
            (tl OUTCOMES_sp) (hd OUTCOMES_sp, d (hd OUTCOMES_sp)))"

record prediction_sp =
  picks :: "(string \<times> dist) list"
  blendedSlots :: "dist list"

text \<open>
  \<^verbatim>\<open>predictEnsemble(history, models, weights)\<close>; \<open>W\<close> holds the current values of the
  global weights, used when no override is passed.
\<close>

definition predictEnsemble :: "weights \<Rightarrow> round list \<Rightarrow> models_sp \<Rightarrow> weights option \<Rightarrow> prediction_sp" where
  "predictEnsemble W history models weightsOpt =
     (let ns = normalizeWeights (case weightsOpt of Some w \<Rightarrow> w | None \<Rightarrow> W);
          blended = map (blendSlot ns history models) [0..<GAMES_PER_ROUND]
      in \<lparr>picks = map (\<lambda>d. (pickBest d, d)) blended, blendedSlots = blended\<rparr>)"

subsection \<open>Walk-forward evaluation\<close>

text \<open>
  The state of the loop of \<^verbatim>\<open>walkForwardEvaluate\<close>: the growing \<^verbatim>\<open>prefix\<close>, the counters,
  and (not in the source, kept to state what was predicted) the list \<open>made_sp\<close> of the
  rounds predicted so far with their picks. Step \<open>i\<close> pushes round \<open>i\<close> and predicts
  round \<open>i + 1\<close>.
\<close>

record wf_state_sp =
  prefix :: "round list"
  totalRounds :: nat
  correctRounds :: nat
  correctSlots :: nat
  totalSlots :: nat
  made_sp :: "(nat \<times> (string \<times> dist) list) list"

definition slotHits :: "(string \<times> dist) list \<Rightarrow> string list \<Rightarrow> bool list" where
  "slotHits pk actual = map (\<lambda>idx. nth_opt actual idx = Some (fst (pk ! idx))) [0..<length pk]"

definition wf_step_sp :: "weights \<Rightarrow> round list \<Rightarrow> weights option \<Rightarrow> nat \<Rightarrow> wf_state_sp \<Rightarrow> wf_state_sp" where
  "wf_step_sp W history weightsOverride i st =
     (let prefix1 = prefix st @ [history ! i];
          models = buildModels prefix1;
          pk = picks (predictEnsemble W prefix1 models weightsOverride);
          actual = games (history ! (i + 1));
          hits = slotHits pk actual;
          roundCorrect = list_all (\<lambda>h. h) hits
      in st\<lparr>prefix := prefix1,
            totalRounds := totalRounds st + 1,
            correctRounds := (if roundCorrect then correctRounds st + 1 else correctRounds st),
            correctSlots := correctSlots st + length (filter (\<lambda>h. h) hits),
            totalSlots := totalSlots st + length pk,
            made_sp := made_sp st @ [(i + 1, pk)]\<rparr>)"

definition wf_init_sp :: wf_state_sp where
  "wf_init_sp = \<lparr>prefix = [], totalRounds = 0, correctRounds = 0, correctSlots = 0, totalSlots = 0,
                 made_sp = []\<rparr>"

definition wf_run_sp :: "weights \<Rightarrow> round list \<Rightarrow> weights option \<Rightarrow> wf_state_sp" where
  "wf_run_sp W history weightsOverride =
     (if length history < 2 then wf_init_sp
      else fold (wf_step_sp W history weightsOverride) [0..<length history - 1] wf_init_sp)"

record wf_result_sp =
  rounds :: nat
  res_correctRounds :: nat
  roundAccuracy :: "real option"
  slotAccuracy :: real

definition walkForwardEvaluate_sp :: "weights \<Rightarrow> round list \<Rightarrow> weights option \<Rightarrow> wf_result_sp" where
  "walkForwardEvaluate_sp W history weightsOverride =
     (if length history < 2
      then \<lparr>rounds = 0, res_correctRounds = 0, roundAccuracy = None, slotAccuracy = 0\<rparr>
      else
        let st = wf_run_sp W history weightsOverride in
        \<lparr>rounds = totalRounds st,
         res_correctRounds = correctRounds st,
         roundAccuracy = Some (if totalRounds st \<noteq> 0
                               then real (correctRounds st) / real (totalRounds st) else 0),
         slotAccuracy = (if totalSlots st \<noteq> 0
                         then real (correctSlots st) / real (totalSlots st) else 0)\<rparr>)"

text \<open>The picks made for round \<open>i\<close>, if the evaluator predicted it.\<close>

definition predictionFor_sp :: "weights \<Rightarrow> round list \<Rightarrow> weights option \<Rightarrow> nat \<Rightarrow> (string \<times> dist) list option" where
  "predictionFor_sp W history weightsOverride i = map_of (made_sp (wf_run_sp W history weightsOverride)) i"

section \<open>Predicates of the claims and invariants of the proofs\<close>

text \<open>
  The weights under which the ensemble of sportypredictor is normalised: none negative, and
  the slot, Markov and pattern weights not all 0.
\<close>

definition weights_ok :: "weights \<Rightarrow> bool" where
  "weights_ok w = (0 \<le> slot w \<and> 0 \<le> markov w \<and> 0 \<le> pattern w \<and> 0 \<le> streak w
      \<and> 0 < slot w + markov w + pattern w)"

text \<open>Row \<open>p\<close> of slot \<open>s\<close> of the Markov counts still holds the prior only.\<close>

definition row_fresh :: "nat \<Rightarrow> string \<Rightarrow> counts_sp \<Rightarrow> bool" where
  "row_fresh s p c = (s < GAMES_PER_ROUND \<and> length (markovCounts c) = GAMES_PER_ROUND
      \<and> (markovCounts c ! s) p = fromEntries OUTCOMES_sp ALPHA)"

text \<open>
  The invariant of the loop of \<^verbatim>\<open>buildModels\<close>: every bucket of every count table holds at
  least the prior, and every table has one row for each slot.
\<close>

definition pos_row :: "dist \<Rightarrow> bool" where
  "pos_row r = (\<forall>k\<in>set OUTCOMES_sp. ALPHA \<le> r k)"

definition rows_ok :: "dist list \<Rightarrow> bool" where
  "rows_ok rows = (length rows = GAMES_PER_ROUND \<and> (\<forall>s<GAMES_PER_ROUND. pos_row (rows ! s)))"

definition counts_ok :: "counts_sp \<Rightarrow> bool" where
  "counts_ok c =
     (rows_ok (slotCounts c) \<and> pos_row (globalCounts c)
      \<and> length (markovCounts c) = GAMES_PER_ROUND
      \<and> (\<forall>s<GAMES_PER_ROUND. \<forall>p\<in>set OUTCOMES_sp. pos_row ((markovCounts c ! s) p))
      \<and> (\<forall>key rows. patternCounts c key = Some rows \<longrightarrow> rows_ok rows))"

text \<open>What the normalisation makes of it: every table of the models holds distributions.\<close>

definition dists_ok :: "dist list \<Rightarrow> bool" where
  "dists_ok rows = (length rows = GAMES_PER_ROUND \<and> (\<forall>s<GAMES_PER_ROUND. is_dist OUTCOMES_sp (rows ! s)))"

definition models_ok :: "models_sp \<Rightarrow> bool" where
  "models_ok m =
     (dists_ok (slotPosteriors m) \<and> is_dist OUTCOMES_sp (globalPosterior m)
      \<and> length (markovProbs m) = GAMES_PER_ROUND
      \<and> (\<forall>s p row. s < GAMES_PER_ROUND \<and> (markovProbs m ! s) p = Some row \<longrightarrow> is_dist OUTCOMES_sp row)
      \<and> (\<forall>key rows. patternProbs m key = Some rows \<longrightarrow> dists_ok rows))"

text \<open>
  The map \<^verbatim>\<open>adj\<close> of \<^verbatim>\<open>applyStreakAdjustment\<close> for the streak outcome \<open>w\<close>, before the
  renormalisation: each other outcome gets half the bonus, capped at 1.
\<close>

definition capped :: "dist \<Rightarrow> string \<Rightarrow> dist" where
  "capped p w = (\<lambda>k. if k = w then p w else if k \<in> set OUTCOMES_sp then min 1 (p k + STREAK_BONUS_sp / 2) else p k)"

text \<open>The picks of the ensemble of sportypredictor on the models built from a prefix.\<close>

definition pred_sp :: "weights \<Rightarrow> weights option \<Rightarrow> round list \<Rightarrow> (string \<times> dist) list" where
  "pred_sp W wo pre = picks (predictEnsemble W pre (buildModels pre) wo)"

text \<open>The invariant of the model state of index.cjs: every count is positive.\<close>

definition state_ok :: "model_rb \<Rightarrow> bool" where
  "state_ok m = ((\<forall>a\<in>set OUTCOMES. 0 < marg m a) \<and> (\<forall>a\<in>set OUTCOMES. \<forall>b\<in>set OUTCOMES. 0 < trans m a b))"

section \<open>Lemmas\<close>

subsection \<open>Sums over the alphabet and the streak adjustments\<close>

lemma sumValues_3: "sumValues [a, b, c] p = p a + p b + p c"
  by (simp add: sumValues_def)

lemma addToEach_Cons: "addToEach a (k # ks) adj = addToEach a ks (adj(k := adj k + a))"
  by (simp add: addToEach_def)

lemma addToEach_Nil: "addToEach a [] adj = adj"
  by (simp add: addToEach_def)

lemma OUTCOMES_cases:
  assumes "v \<in> set OUTCOMES"
  obtains "v = ''RED''" | "v = ''BLACK''" | "v = ''GREEN''"
  using assms by (auto simp: OUTCOMES_def)

lemma OUTCOMES_sp_cases:
  assumes "v \<in> set OUTCOMES_sp"
  obtains "v = ''R''" | "v = ''B''" | "v = ''G''"
  using assms by (auto simp: OUTCOMES_sp_def)

lemma hd_slice_last:
  "0 < k \<Longrightarrow> k \<le> length h \<Longrightarrow> every_same (slice_last k h) \<Longrightarrow> hd (slice_last k h) = last h"
  apply (simp add: slice_last_def every_same_def list_all_iff)
  by (metis diff_less last_drop last_in_set length_greater_0_conv length_drop less_le_trans zero_less_diff drop_eq_Nil not_le)

lemma streak_adv_noop:
  "\<not> (STREAK_WINDOW \<le> length h \<and> every_same (slice_last STREAK_WINDOW h)
      \<and> hd (slice_last STREAK_WINDOW h) \<in> set OUTCOMES)
   \<Longrightarrow> applyStreakBias_adv p h = p"
  by (auto simp: applyStreakBias_adv_def Let_def)

lemma addToEach_others:
  assumes "v \<in> set OUTCOMES"
  shows "addToEach a (filter (\<lambda>k. k \<noteq> v) OUTCOMES) (p(v := x)) =
     (\<lambda>k. if k = v then x else if k \<in> set OUTCOMES then p k + a else p k)"
  using assms
  by (cases rule: OUTCOMES_cases) (auto simp: OUTCOMES_def addToEach_Cons addToEach_Nil fun_eq_iff)

lemma length_others: "v \<in> set OUTCOMES \<Longrightarrow> length (filter (\<lambda>k. k \<noteq> v) OUTCOMES) = 2"
  by (erule OUTCOMES_cases) (auto simp: OUTCOMES_def)

lemma streak_adv_apply:
  assumes "STREAK_WINDOW \<le> length h" "every_same (slice_last STREAK_WINDOW h)"
    "hd (slice_last STREAK_WINDOW h) = v" "v \<in> set OUTCOMES"
  shows "applyStreakBias_adv p h =
     (\<lambda>k. if k = v then max 0 (p v - min STREAK_BONUS_adv (p v / 2))
          else if k \<in> set OUTCOMES then p k + min STREAK_BONUS_adv (p v / 2) / 2 else p k)"
  using assms by (simp add: applyStreakBias_adv_def Let_def addToEach_others length_others)

lemma every_same_iff: "xs \<noteq> [] \<Longrightarrow> (\<forall>x\<in>set xs. x = v) \<Longrightarrow> every_same xs \<and> hd xs = v"
  by (cases xs) (auto simp: every_same_def list_all_iff)

lemma slice_last_nonempty: "0 < k \<Longrightarrow> k \<le> length h \<Longrightarrow> slice_last k h \<noteq> []"
  by (auto simp: slice_last_def)

lemma streak_adv_bound:
  assumes d: "is_dist OUTCOMES p" and len: "STREAK_WINDOW \<le> length h"
    and same: "\<forall>x\<in>set (slice_last STREAK_WINDOW h). x = v" and vin: "v \<in> set OUTCOMES"
  shows "applyStreakBias_adv p h v \<le> p v \<and> p v - applyStreakBias_adv p h v \<le> STREAK_BONUS_adv"
proof -
  have ne: "slice_last STREAK_WINDOW h \<noteq> []"
    using len by (intro slice_last_nonempty) (auto simp: STREAK_WINDOW_def)
  have es: "every_same (slice_last STREAK_WINDOW h)" "hd (slice_last STREAK_WINDOW h) = v"
    using every_same_iff [OF ne same] by auto
  have pv: "0 \<le> p v" using d vin by (auto simp: is_dist_def list_all_iff)
  show ?thesis
    using pv by (simp add: streak_adv_apply [OF len es vin] STREAK_BONUS_adv_def max_def min_def)
qed

lemma normalizeDict_id: "sumValues OUTCOMES p = 1 \<Longrightarrow> normalizeDict p = p"
  by (simp add: normalizeDict_def Let_def)

lemma streak_rb_apply:
  assumes "STREAK_WINDOW \<le> length h" "every_same (slice_last STREAK_WINDOW h)"
    "hd (slice_last STREAK_WINDOW h) = v" "v \<in> set OUTCOMES"
  shows "applyStreakBias_rb p h = normalizeDict
     (\<lambda>k. if k = v then max 0 (p v - min STREAK_BONUS_rb (p v / 2))
          else if k \<in> set OUTCOMES then p k + min STREAK_BONUS_rb (p v / 2) / 2 else p k)"
  using assms by (simp add: applyStreakBias_rb_def Let_def addToEach_others length_others)

lemma streak_rb_bound:
  assumes d: "is_dist OUTCOMES p" and len: "STREAK_WINDOW \<le> length h"
    and same: "\<forall>x\<in>set (slice_last STREAK_WINDOW h). x = v" and vin: "v \<in> set OUTCOMES"
  shows "applyStreakBias_rb p h v \<le> p v \<and> p v - applyStreakBias_rb p h v \<le> STREAK_BONUS_rb"
proof -
  have ne: "slice_last STREAK_WINDOW h \<noteq> []"
    using len by (intro slice_last_nonempty) (auto simp: STREAK_WINDOW_def)
  have es: "every_same (slice_last STREAK_WINDOW h)" "hd (slice_last STREAK_WINDOW h) = v"
    using every_same_iff [OF ne same] by auto
  have pv: "0 \<le> p v" using d vin by (auto simp: is_dist_def list_all_iff)
  define adj where "adj = (\<lambda>k. if k = v then max 0 (p v - min STREAK_BONUS_rb (p v / 2))
          else if k \<in> set OUTCOMES then p k + min STREAK_BONUS_rb (p v / 2) / 2 else p k)"
  have s1: "sumValues OUTCOMES p = 1" using d by (simp add: is_dist_def)
  have "sumValues OUTCOMES adj = sumValues OUTCOMES p"
    using vin pv unfolding adj_def
    by (cases rule: OUTCOMES_cases) (auto simp: sumValues_3 OUTCOMES_def STREAK_BONUS_rb_def max_def min_def)
  then have "normalizeDict adj = adj" using s1 by (simp add: normalizeDict_id)
  then have "applyStreakBias_rb p h = adj"
    using streak_rb_apply [OF len es vin, of p] by (simp add: adj_def)
  then show ?thesis
    using pv by (simp add: adj_def STREAK_BONUS_rb_def max_def min_def)
qed

lemma capTransfer_others:
  assumes "w \<in> set OUTCOMES_sp"
  shows "fold (\<lambda>opp a. a(opp := min 1 (a opp + t))) (filter (\<lambda>k. k \<noteq> w) OUTCOMES_sp) q =
     (\<lambda>k. if k = w then q w else if k \<in> set OUTCOMES_sp then min 1 (q k + t) else q k)"
  using assms
  by (cases rule: OUTCOMES_sp_cases) (auto simp: OUTCOMES_sp_def fun_eq_iff)

lemma length_others_sp:
  "w \<in> set OUTCOMES_sp \<Longrightarrow> length (filter (\<lambda>k. k \<noteq> w) OUTCOMES_sp) = 2"
  by (erule OUTCOMES_sp_cases) (auto simp: OUTCOMES_sp_def)

lemma others_sp_nonempty:
  "w \<in> set OUTCOMES_sp \<Longrightarrow> filter (\<lambda>k. k \<noteq> w) OUTCOMES_sp \<noteq> []"
  using length_others_sp [of w] by auto

lemma streak_sp_apply:
  assumes len: "STREAK_WINDOW \<le> length hist"
    and same: "\<forall>r\<in>set (slice_last STREAK_WINDOW hist). games_at r s = Some w"
    and win: "w \<in> set OUTCOMES_sp"
  shows "applyStreakAdjustment q hist s =
     (let adj = (\<lambda>k. if k = w then q w else if k \<in> set OUTCOMES_sp then min 1 (q k + STREAK_BONUS_sp / 2) else q k)
      in (\<lambda>k. adj k / sumValues OUTCOMES_sp adj))"
proof -
  let ?vals = "map (\<lambda>r. games_at r s) (slice_last STREAK_WINDOW hist)"
  have ne: "?vals \<noteq> []"
    using len slice_last_nonempty [of STREAK_WINDOW hist] by (simp add: STREAK_WINDOW_def)
  have "\<forall>x\<in>set ?vals. x = Some w" using same by auto
  from every_same_iff [OF ne this] have es: "every_same ?vals" "hd ?vals = Some w" by auto
  show ?thesis
    using len es win
    by (simp add: applyStreakAdjustment_def Let_def includes_sp_def capTransfer_others length_others_sp
        others_sp_nonempty)
qed

lemma streak_sp_bound:
  assumes d: "is_dist OUTCOMES_sp q" and len: "STREAK_WINDOW \<le> length hist"
    and same: "\<forall>r\<in>set (slice_last STREAK_WINDOW hist). games_at r s = Some w"
    and win: "w \<in> set OUTCOMES_sp"
  shows "applyStreakAdjustment q hist s w \<le> q w \<and> q w - applyStreakAdjustment q hist s w \<le> STREAK_BONUS_sp"
proof -
  define adj where "adj = (\<lambda>k. if k = w then q w else if k \<in> set OUTCOMES_sp then min 1 (q k + STREAK_BONUS_sp / 2) else q k)"
  define S where "S = sumValues OUTCOMES_sp adj"
  have post: "applyStreakAdjustment q hist s w = q w / S"
    using streak_sp_apply [OF len same win, of q] by (simp add: Let_def adj_def S_def)
  have nn: "0 \<le> q ''R''" "0 \<le> q ''B''" "0 \<le> q ''G''" and s1: "q ''R'' + q ''B'' + q ''G'' = 1"
    using d by (auto simp: is_dist_def OUTCOMES_sp_def sumValues_3)
  have S_bounds: "1 \<le> S \<and> S \<le> 1 + STREAK_BONUS_sp"
    using win nn s1 unfolding S_def adj_def
    by (cases rule: OUTCOMES_sp_cases) (auto simp: sumValues_3 OUTCOMES_sp_def STREAK_BONUS_sp_def min_def)
  have qw: "0 \<le> q w" "q w \<le> 1"
    using win nn s1 by (cases rule: OUTCOMES_sp_cases; simp)+
  have "q w * 1 \<le> q w * S"
    using S_bounds qw by (intro mult_left_mono) auto
  then have le: "q w / S \<le> q w"
    using S_bounds by (simp add: divide_le_eq)
  have "q w - q w / S = q w * ((S - 1) / S)"
    using S_bounds by (simp add: field_simps)
  also have "\<dots> \<le> 1 * ((S - 1) / S)"
    using qw S_bounds by (intro mult_right_mono) auto
  also have "\<dots> \<le> S - 1"
  proof -
    have "(S - 1) * 1 \<le> (S - 1) * S" using S_bounds by (intro mult_left_mono) auto
    then show ?thesis using S_bounds by (simp add: divide_le_eq)
  qed
  also have "\<dots> \<le> STREAK_BONUS_sp" using S_bounds by simp
  finally show ?thesis using le post by simp
qed

subsection \<open>Parsing\<close>

lemma parseRoundInput_cases:
  "(case parseRoundInput raw of
      Inr tokens \<Rightarrow> length tokens = GAMES_PER_ROUND \<and> list_all (\<lambda>t. t \<in> set OUTCOMES_sp) tokens
         \<and> tokens = map toUpperCase (split_ws [] False (trim (replace_commas raw)))
    | Inl e \<Rightarrow> \<exists>msg. e = InputError msg)"
  by (simp add: parseRoundInput_def Let_def)

lemma cmd_add_Inl:
  "parseRoundInput (join '' '' rest) = Inl e \<Longrightarrow> cmd_add now rest history = (history, Some e)"
  by (simp add: cmd_add_def Let_def)

lemma cmd_add_Inr:
  "parseRoundInput (join '' '' rest) = Inr tokens \<Longrightarrow>
   cmd_add now rest history = (history @ [\<lparr>rts = now, games = tokens\<rparr>], None)"
  by (simp add: cmd_add_def Let_def)

lemma parse_example_ok: "parseRoundInput ''r,b G  r b'' = Inr [''R'', ''B'', ''G'', ''R'', ''B'']"
  by code_simp

lemma parse_example_bad:
  "parseRoundInput (join '' '' [''R,B,X'', ''R,B'']) = Inl (InputError ''Outcomes must be one of R,B,G'')"
  by code_simp

lemma parse_example_short:
  "parseRoundInput (join '' '' [''R'', ''B'']) = Inl (InputError ''Need exactly 5 outcomes (R/B/G).'')"
  by code_simp

subsection \<open>The empty history\<close>

lemma buildCounts_Nil: "buildCounts [] = init_counts"
  by (simp add: buildCounts_def)

lemma normalize_fresh: "normalize_sp (fromEntries OUTCOMES_sp ALPHA) = fromEntries OUTCOMES_sp (1 / 3)"
  by (auto simp: normalize_sp_def fromEntries_def OUTCOMES_sp_def sumValues_3 ALPHA_def Let_def fun_eq_iff)

lemma buildModels_Nil:
  "slotPosteriors (buildModels []) = replicate GAMES_PER_ROUND (fromEntries OUTCOMES_sp (1 / 3))"
  "globalPosterior (buildModels []) = fromEntries OUTCOMES_sp (1 / 3)"
  "patternProbs (buildModels []) = Map.empty"
  by (simp_all add: buildModels_def buildCounts_Nil init_counts_def freshSlots_def normalize_fresh)

lemma buildMarginal_Nil: "buildMarginal [] = fromEntries OUTCOMES 0"
  by (auto simp: buildMarginal_def fromEntries_def Let_def sumValues_def fun_eq_iff)

lemma normalizeDict_init: "normalizeDict (marg init_rb) = fromEntries OUTCOMES (1 / 3)"
  by (auto simp: normalizeDict_def init_rb_def fromEntries_def OUTCOMES_def sumValues_3 ALPHA_def Let_def fun_eq_iff)

lemma is_dist_uniform: "is_dist OUTCOMES (fromEntries OUTCOMES (1 / 3))" "is_dist OUTCOMES_sp (fromEntries OUTCOMES_sp (1 / 3))"
  by (simp_all add: is_dist_def fromEntries_def OUTCOMES_def OUTCOMES_sp_def sumValues_3)

lemma not_dist_zero: "\<not> is_dist OUTCOMES (fromEntries OUTCOMES 0)"
  by (simp add: is_dist_def fromEntries_def OUTCOMES_def sumValues_3)

lemma applyStreakAdjustment_Nil: "applyStreakAdjustment p [] s = p"
  by (simp add: applyStreakAdjustment_def STREAK_WINDOW_def)

lemma blendSlot_Nil:
  assumes "s < GAMES_PER_ROUND"
  shows "blendSlot (normalizeWeights W_default) [] (buildModels []) s = fromEntries OUTCOMES_sp (1 / 3)"
  using assms
  by (auto simp: blendSlot_def slotWithGlobal_def Let_def applyStreakAdjustment_Nil buildModels_Nil normalizeWeights_def
      W_default_def MIX_GLOBAL_sp_def fromEntries_def OUTCOMES_sp_def normalize_sp_def sumValues_3 fun_eq_iff)

lemma predictEnsemble_Nil:
  "blendedSlots (predictEnsemble W_default [] (buildModels []) None)
     = replicate GAMES_PER_ROUND (fromEntries OUTCOMES_sp (1 / 3))"
proof -
  have "map (blendSlot (normalizeWeights W_default) [] (buildModels [])) [0..<GAMES_PER_ROUND]
      = map (\<lambda>s. fromEntries OUTCOMES_sp (1 / 3)) [0..<GAMES_PER_ROUND]"
    by (rule map_cong) (auto simp: blendSlot_Nil)
  then show ?thesis
    by (simp add: predictEnsemble_def Let_def map_replicate_const)
qed

lemma pickBest_uniform: "pickBest (fromEntries OUTCOMES_sp (1 / 3)) = ''R''"
  by (simp add: pickBest_def OUTCOMES_sp_def fromEntries_def)

lemma ensemblePredict_Nil: "ensemblePredict hourOf now [] None = fromEntries OUTCOMES (1 / 3)"
proof -
  have s: "applyStreakBias_adv p [] = p" for p
    by (simp add: applyStreakBias_adv_def STREAK_WINDOW_def)
  show ?thesis
    by (auto simp: ensemblePredict_def Let_def buildMarginal_Nil predictSoftmaxModel_def s fun_eq_iff
        fromEntries_def OUTCOMES_def sumValues_3 MIX_LOGREG_def MIX_MARKOV_def MIX_MARG_def)
qed

subsection \<open>Markov rows that no transition touched\<close>

lemma markov_step_adv_other:
  assumes "\<not> (outcome (h ! (i - 1)) = a \<and> outcome (h ! i) \<in> set OUTCOMES)"
  shows "markov_step_adv h i counts a = counts a"
  using assms by (auto simp: markov_step_adv_def Let_def)

lemma markovCounts_adv_untouched:
  assumes "\<forall>i. 1 \<le> i \<and> i < length h \<longrightarrow> \<not> (outcome (h ! (i - 1)) = a \<and> outcome (h ! i) \<in> set OUTCOMES)"
  shows "markovCounts_adv h a = fromEntries OUTCOMES 0"
  unfolding markovCounts_adv_def
proof (rule fold_invariant [where Q = "\<lambda>i. 1 \<le> i \<and> i < length h"
      and P = "\<lambda>counts. counts a = fromEntries OUTCOMES 0"])
  fix i assume "i \<in> set [1..<length h]"
  then show "1 \<le> i \<and> i < length h" by simp
next
  show "fromEntries OUTCOMES 0 = fromEntries OUTCOMES 0" by simp
next
  fix i counts
  assume "1 \<le> i \<and> i < length h" and "counts a = fromEntries OUTCOMES 0"
  then show "markov_step_adv h i counts a = fromEntries OUTCOMES 0"
    using assms markov_step_adv_other [of h i a counts] by simp
qed

lemma buildMarkov_untouched:
  assumes "a \<in> set OUTCOMES"
    and "\<forall>i. 1 \<le> i \<and> i < length h \<longrightarrow> \<not> (outcome (h ! (i - 1)) = a \<and> outcome (h ! i) \<in> set OUTCOMES)"
  shows "buildMarkov h a = Some (fromEntries OUTCOMES (1 / 3))"
  using assms(1)
  by (simp add: buildMarkov_def Let_def markovCounts_adv_untouched [OF assms(2)])
     (simp add: fromEntries_def OUTCOMES_def sumValues_3)

lemma buildMarkov_zero_mass:
  assumes "a \<in> set OUTCOMES" and "sumValues OUTCOMES (markovCounts_adv h a) = 0"
  shows "buildMarkov h a = Some (fromEntries OUTCOMES (1 / 3))"
  using assms by (simp add: buildMarkov_def Let_def OUTCOMES_def)

lemma markovCounts_slot_step [simp]: "markovCounts (slot_step wi rnd s c) = markovCounts c"
  by (simp add: slot_step_def split: option.splits)

lemma markovCounts_fold_slot_step [simp]: "markovCounts (fold (slot_step wi rnd) xs c) = markovCounts c"
  by (induction xs arbitrary: c) simp_all

lemma markov_step_fresh:
  assumes "row_fresh s p c" "\<not> (games_at prev s = Some p \<and> includes_sp (games_at rnd s))"
  shows "row_fresh s p (markov_step wi prev rnd s' c)"
proof (cases "s' = s")
  case True
  then show ?thesis using assms
    by (auto simp: row_fresh_def markov_step_def includes_sp_def split: option.splits)
next
  case False
  then show ?thesis using assms
    by (auto simp: row_fresh_def markov_step_def split: option.splits)
qed

lemma fold_markov_step_fresh:
  assumes "row_fresh s p c" "\<not> (games_at prev s = Some p \<and> includes_sp (games_at rnd s))"
  shows "row_fresh s p (fold (markov_step wi prev rnd) xs c)"
  using assms(1) by (induction xs arbitrary: c) (simp_all add: markov_step_fresh assms(2))

lemma round_step_fresh:
  assumes "row_fresh s p c"
    and "0 < i \<longrightarrow> \<not> (games_at (h ! (i - 1)) s = Some p \<and> includes_sp (games_at (h ! i) s))"
  shows "row_fresh s p (round_step h w i c)"
proof -
  have a: "row_fresh s p (fold (slot_step (w ! i) (h ! i)) [0..<GAMES_PER_ROUND] c)"
    using assms(1) by (simp add: row_fresh_def)
  show ?thesis
  proof (cases "0 < i")
    case False
    then show ?thesis using a by (simp add: round_step_def Let_def)
  next
    case True
    then have "row_fresh s p (fold (markov_step (w ! i) (h ! (i - 1)) (h ! i)) [0..<GAMES_PER_ROUND]
        (fold (slot_step (w ! i) (h ! i)) [0..<GAMES_PER_ROUND] c))"
      using a assms(2) by (intro fold_markov_step_fresh) auto
    then show ?thesis using True by (simp add: round_step_def Let_def row_fresh_def)
  qed
qed

lemma init_fresh: "s < GAMES_PER_ROUND \<Longrightarrow> p \<in> set OUTCOMES_sp \<Longrightarrow> row_fresh s p init_counts"
  by (simp add: row_fresh_def init_counts_def)

lemma buildCounts_fresh:
  assumes "s < GAMES_PER_ROUND" "p \<in> set OUTCOMES_sp"
    and "\<forall>i. 1 \<le> i \<and> i < length h \<longrightarrow> \<not> (games_at (h ! (i - 1)) s = Some p \<and> includes_sp (games_at (h ! i) s))"
  shows "row_fresh s p (buildCounts h)"
proof (cases "0 < length h")
  case False
  then show ?thesis using assms by (simp add: buildCounts_def init_fresh)
next
  case True
  have "row_fresh s p (fold (round_step h (recencyWeights (length h))) [0..<length h] init_counts)"
  proof (rule fold_invariant [where Q = "\<lambda>i. i < length h"])
    fix i assume "i \<in> set [0..<length h]" then show "i < length h" by simp
  next
    show "row_fresh s p init_counts" using assms by (simp add: init_fresh)
  next
    fix i c assume "i < length h" "row_fresh s p c"
    then show "row_fresh s p (round_step h (recencyWeights (length h)) i c)"
      using assms(3) by (intro round_step_fresh) auto
  qed
  then show ?thesis using True by (simp add: buildCounts_def Let_def)
qed

lemma markovProbs_untouched:
  assumes "s < GAMES_PER_ROUND" "p \<in> set OUTCOMES_sp"
    and "\<forall>i. 1 \<le> i \<and> i < length h \<longrightarrow> \<not> (games_at (h ! (i - 1)) s = Some p \<and> includes_sp (games_at (h ! i) s))"
  shows "(markovProbs (buildModels h) ! s) p = Some (fromEntries OUTCOMES_sp (1 / 3))"
  using buildCounts_fresh [OF assms] assms(1,2)
  by (simp add: buildModels_def Let_def row_fresh_def normalize_fresh)

subsection \<open>The pick\<close>

lemma bestOf_fold:
  "fold (\<lambda>(k, v) bestP. case bestP of None \<Rightarrow> Some v | Some p \<Rightarrow> if v > p then Some v else Some p) entries (Some m)
     = Some (fold (\<lambda>(k, v) p. if v > p then v else p) entries m)"
  by (induction entries arbitrary: m) auto

lemma fold_max_Max:
  "fold (\<lambda>(k, v) p. if v > p then v else p) entries (m::real) = Max (insert m (snd ` set entries))"
proof (induction entries arbitrary: m)
  case Nil
  then show ?case by simp
next
  case (Cons e es)
  obtain k v where e: "e = (k, v)" by (cases e)
  have i: "(if v > m then v else m) = max v m" by (simp add: max_def)
  have "Max (insert (max v m) (snd ` set es)) = Max (insert m (insert v (snd ` set es)))"
  proof (cases "snd ` set es = {}")
    case True
    then show ?thesis by (simp add: max.commute)
  next
    case False
    then show ?thesis by (simp add: max.assoc max.commute)
  qed
  then show ?case using Cons e i by simp
qed

lemma bestOf_Max: "entries \<noteq> [] \<Longrightarrow> bestOf entries = Some (Max (snd ` set entries))"
proof (cases entries)
  case Nil
  then show "entries \<noteq> [] \<Longrightarrow> ?thesis" by simp
next
  case (Cons e es)
  obtain k v where e: "e = (k, v)" by (cases e)
  show ?thesis using Cons e by (simp add: bestOf_def bestOf_fold fold_max_Max)
qed

lemma candidatesOf_Max:
  "entries \<noteq> [] \<Longrightarrow>
   candidatesOf entries = map fst (filter (\<lambda>(k, v). \<bar>v - Max (snd ` set entries)\<bar> \<le> tol) entries)"
  by (simp add: candidatesOf_def bestOf_Max)

lemma candidatesOf_distinct: "distinct (map fst entries) \<Longrightarrow> distinct (candidatesOf entries)"
  by (auto simp: candidatesOf_def distinct_map_filter split: option.splits)

lemma nat_floor_eq_iff:
  assumes "0 \<le> y"
  shows "nat \<lfloor>y::real\<rfloor> = j \<longleftrightarrow> real j \<le> y \<and> y < real j + 1"
proof -
  have "nat \<lfloor>y\<rfloor> = j \<longleftrightarrow> \<lfloor>y\<rfloor> = int j" using assms by auto
  also have "\<dots> \<longleftrightarrow> real j \<le> y \<and> y < real j + 1" by (simp add: floor_eq_iff)
  finally show ?thesis .
qed

lemma argmax_tie_pick:
  assumes n: "2 \<le> length (candidatesOf entries)" and x: "0 \<le> r 0" "r 0 < 1"
  shows "fst (argmaxWithRandomTie entries r)
     = Some (candidatesOf entries ! nat \<lfloor>r 0 * real (length (candidatesOf entries))\<rfloor>)
   \<and> nat \<lfloor>r 0 * real (length (candidatesOf entries))\<rfloor> < length (candidatesOf entries)"
proof -
  let ?n = "length (candidatesOf entries)"
  have "r 0 * real ?n < 1 * real ?n" using x n by (intro mult_strict_right_mono) auto
  then have "\<lfloor>r 0 * real ?n\<rfloor> < int ?n" by (simp add: floor_less_iff)
  then have lt: "nat \<lfloor>r 0 * real ?n\<rfloor> < ?n" using x by (simp add: nat_less_iff)
  show ?thesis
    using n lt by (auto simp: argmaxWithRandomTie_def Let_def draw_def nth_opt_def)
qed

lemma argmax_tie_interval:
  assumes d: "distinct (map fst entries)"
    and n: "2 \<le> length (candidatesOf entries)" and x: "0 \<le> r 0" "r 0 < 1"
    and j: "j < length (candidatesOf entries)"
  shows "fst (argmaxWithRandomTie entries r) = Some (candidatesOf entries ! j)
     \<longleftrightarrow> real j / real (length (candidatesOf entries)) \<le> r 0
         \<and> r 0 < (real j + 1) / real (length (candidatesOf entries))"
proof -
  let ?c = "candidatesOf entries"
  let ?n = "length ?c"
  let ?m = "nat \<lfloor>r 0 * real ?n\<rfloor>"
  have "0 < ?n" using n by linarith
  then have npos: "0 < real ?n" by (simp del: length_greater_0_conv)
  from argmax_tie_pick [of entries r] n x have p: "fst (argmaxWithRandomTie entries r) = Some (?c ! ?m)" and m: "?m < ?n"
    by auto
  have "?c ! ?m = ?c ! j \<longleftrightarrow> ?m = j"
    using candidatesOf_distinct [OF d] m j by (simp add: nth_eq_iff_index_eq)
  also have "\<dots> \<longleftrightarrow> real j \<le> r 0 * real ?n \<and> r 0 * real ?n < real j + 1"
    using x nat_floor_eq_iff [of "r 0 * real ?n" j] by simp
  also have "\<dots> \<longleftrightarrow> real j / real ?n \<le> r 0 \<and> r 0 < (real j + 1) / real ?n"
    using npos by (simp add: divide_le_eq less_divide_eq)
  finally show ?thesis using p by simp
qed

lemma argmax_single:
  "length (candidatesOf entries) = 1 \<Longrightarrow> argmaxWithRandomTie entries r = (Some (candidatesOf entries ! 0), r)"
  by (simp add: argmaxWithRandomTie_def)

lemma pickBest_order:
  "pickBest d = (if d ''G'' > max (d ''R'') (d ''B'') then ''G'' else if d ''B'' > d ''R'' then ''B'' else ''R'')"
  by (auto simp: pickBest_def OUTCOMES_sp_def)

lemma cands_example: "candidatesOf [(''A'', 1 / 2), (''B'', 1 / 2), (''C'', 0)] = [''A'', ''B'']"
  by (simp add: candidatesOf_def bestOf_def tol_def)

subsection \<open>Counts and posteriors of sportypredictor\<close>

lemma is_dist_sp_iff:
  "is_dist OUTCOMES_sp p \<longleftrightarrow> 0 \<le> p ''R'' \<and> 0 \<le> p ''B'' \<and> 0 \<le> p ''G'' \<and> p ''R'' + p ''B'' + p ''G'' = 1"
  by (simp add: is_dist_def OUTCOMES_sp_def sumValues_3)

lemma is_dist_iff:
  "is_dist OUTCOMES p \<longleftrightarrow> 0 \<le> p ''RED'' \<and> 0 \<le> p ''BLACK'' \<and> 0 \<le> p ''GREEN''
      \<and> p ''RED'' + p ''BLACK'' + p ''GREEN'' = 1"
  by (simp add: is_dist_def OUTCOMES_def sumValues_3)

lemma pos_row_iff: "pos_row r \<longleftrightarrow> ALPHA \<le> r ''R'' \<and> ALPHA \<le> r ''B'' \<and> ALPHA \<le> r ''G''"
  by (simp add: pos_row_def OUTCOMES_sp_def)

lemma normalize_sp_dist:
  assumes "0 \<le> r ''R''" "0 \<le> r ''B''" "0 \<le> r ''G''" "0 < r ''R'' + r ''B'' + r ''G''"
  shows "is_dist OUTCOMES_sp (normalize_sp r)"
proof -
  let ?t = "r ''R'' + r ''B'' + r ''G''"
  have s: "sumValues OUTCOMES_sp r = ?t" by (simp add: OUTCOMES_sp_def sumValues_3)
  have n: "normalize_sp r = (\<lambda>k. r k / ?t)" using assms(4) by (simp add: normalize_sp_def s Let_def)
  have "r ''R'' / ?t + r ''B'' / ?t + r ''G'' / ?t = 1"
    using assms(4) by (simp add: add_divide_distrib [symmetric])
  then show ?thesis using assms by (simp add: is_dist_sp_iff n)
qed

lemma normalize_sp_pos: "pos_row r \<Longrightarrow> is_dist OUTCOMES_sp (normalize_sp r)"
  by (rule normalize_sp_dist) (auto simp: pos_row_iff ALPHA_def)

lemma pos_row_update: "pos_row r \<Longrightarrow> 0 \<le> wi \<Longrightarrow> pos_row (r(k := r k + wi))"
  by (auto simp: pos_row_iff)

lemma pos_row_fresh: "pos_row (fromEntries OUTCOMES_sp ALPHA)"
  by (simp add: pos_row_iff fromEntries_def OUTCOMES_sp_def)

lemma nth_update_cases:
  assumes "P (xs ! j)" "i = j \<Longrightarrow> j < length xs \<Longrightarrow> P v"
  shows "P (xs[i := v] ! j)"
proof (cases "i = j \<and> j < length xs")
  case True
  then show ?thesis using assms(2) by simp
next
  case False
  then have "xs[i := v] ! j = xs ! j" by (cases "i = j") (auto simp: list_update_beyond)
  then show ?thesis using assms(1) by simp
qed

lemma rows_ok_update:
  "rows_ok rows \<Longrightarrow> 0 \<le> wi \<Longrightarrow> rows_ok (rows[s := (rows ! s)(k := (rows ! s) k + wi)])"
  by (auto simp: rows_ok_def intro!: nth_update_cases [where P = pos_row] pos_row_update)

lemma slot_step_ok:
  assumes "counts_ok c" "0 \<le> wi"
  shows "counts_ok (slot_step wi rnd s c)"
  using assms
  by (auto simp: slot_step_def counts_ok_def split: option.splits intro: rows_ok_update pos_row_update)

lemma markov_step_ok:
  assumes "counts_ok c" "0 \<le> wi"
  shows "counts_ok (markov_step wi prev rnd s c)"
proof -
  have "pos_row (((markovCounts c)[s := (markovCounts c ! s)(p := ((markovCounts c ! s) p)
            (cur := (markovCounts c ! s) p cur + wi))] ! s') p')"
    if "s' < GAMES_PER_ROUND" "p' \<in> set OUTCOMES_sp" "p \<in> set OUTCOMES_sp" for s' p' p cur
  proof (rule nth_update_cases [where P = "\<lambda>f. pos_row (f p')"])
    show "pos_row ((markovCounts c ! s') p')" using assms that by (simp add: counts_ok_def)
  next
    assume "s = s'" "s' < length (markovCounts c)"
    then show "pos_row (((markovCounts c ! s)(p := ((markovCounts c ! s) p)
            (cur := (markovCounts c ! s) p cur + wi))) p')"
      using assms that by (auto simp: counts_ok_def intro: pos_row_update)
  qed
  then show ?thesis
    using assms by (auto simp: markov_step_def counts_ok_def split: option.splits)
qed

lemma pattern_step_ok: "rows_ok row \<Longrightarrow> 0 \<le> wi \<Longrightarrow> rows_ok (pattern_step wi rnd s row)"
  by (auto simp: pattern_step_def split: option.splits intro: rows_ok_update)

lemma fold_pattern_step_ok: "rows_ok row \<Longrightarrow> 0 \<le> wi \<Longrightarrow> rows_ok (fold (pattern_step wi rnd) xs row)"
  by (induction xs arbitrary: row) (simp_all add: pattern_step_ok)

lemma fold_slot_step_ok: "counts_ok c \<Longrightarrow> 0 \<le> wi \<Longrightarrow> counts_ok (fold (slot_step wi rnd) xs c)"
  by (induction xs arbitrary: c) (simp_all add: slot_step_ok)

lemma fold_markov_step_ok: "counts_ok c \<Longrightarrow> 0 \<le> wi \<Longrightarrow> counts_ok (fold (markov_step wi prev rnd) xs c)"
  by (induction xs arbitrary: c) (simp_all add: markov_step_ok)

lemma freshSlots_ok: "rows_ok freshSlots"
  by (simp add: rows_ok_def freshSlots_def pos_row_fresh)

lemma round_step_ok:
  assumes "counts_ok c" "0 \<le> w ! i"
  shows "counts_ok (round_step h w i c)"
proof -
  let ?c1 = "fold (slot_step (w ! i) (h ! i)) [0..<GAMES_PER_ROUND] c"
  let ?c2 = "if 0 < i then fold (markov_step (w ! i) (h ! (i - 1)) (h ! i)) [0..<GAMES_PER_ROUND] ?c1 else ?c1"
  have c1: "counts_ok ?c1" using assms by (intro fold_slot_step_ok)
  have c2: "counts_ok ?c2" using c1 assms(2) by (auto intro!: fold_markov_step_ok)
  show ?thesis
  proof (cases "0 < i")
    case False
    then show ?thesis using c1 by (simp add: round_step_def Let_def)
  next
    case True
    let ?key = "join '','' (games (h ! (i - 1)))"
    let ?row0 = "case patternCounts ?c2 ?key of Some row \<Rightarrow> row | None \<Rightarrow> freshSlots"
    have r0: "rows_ok ?row0"
      using c2 freshSlots_ok by (auto simp: counts_ok_def split: option.splits)
    have r: "rows_ok (fold (pattern_step (w ! i) (h ! i)) [0..<GAMES_PER_ROUND] ?row0)"
      using r0 assms(2) by (intro fold_pattern_step_ok)
    have "round_step h w i c = ?c2\<lparr>patternCounts := (patternCounts ?c2)(?key \<mapsto>
          fold (pattern_step (w ! i) (h ! i)) [0..<GAMES_PER_ROUND] ?row0)\<rparr>"
      using True by (simp add: round_step_def Let_def)
    then show ?thesis using c2 r by (auto simp: counts_ok_def)
  qed
qed

lemma init_counts_ok: "counts_ok init_counts"
  by (auto simp: counts_ok_def init_counts_def freshSlots_ok pos_row_fresh)

lemma recencyWeights_nonneg: "i < n \<Longrightarrow> 0 \<le> recencyWeights n ! i"
  by (simp add: recencyWeights_def DECAY_sp_def)

lemma buildCounts_ok: "counts_ok (buildCounts h)"
proof (cases "0 < length h")
  case False
  then show ?thesis by (simp add: buildCounts_def init_counts_ok)
next
  case True
  have "counts_ok (fold (round_step h (recencyWeights (length h))) [0..<length h] init_counts)"
  proof (rule fold_invariant [where Q = "\<lambda>i. i < length h"])
    fix i assume "i \<in> set [0..<length h]" then show "i < length h" by simp
  next
    show "counts_ok init_counts" by (rule init_counts_ok)
  next
    fix i c assume "i < length h" "counts_ok c"
    then show "counts_ok (round_step h (recencyWeights (length h)) i c)"
      by (intro round_step_ok recencyWeights_nonneg)
  qed
  then show ?thesis using True by (simp add: buildCounts_def Let_def)
qed

lemma rows_ok_dists: "rows_ok rows \<Longrightarrow> dists_ok (map normalize_sp rows)"
  by (simp add: rows_ok_def dists_ok_def normalize_sp_pos)

lemma buildModels_ok: "models_ok (buildModels h)"
proof -
  have c: "counts_ok (buildCounts h)" by (rule buildCounts_ok)
  show ?thesis
    unfolding models_ok_def buildModels_def Let_def
    using c by (auto simp: counts_ok_def rows_ok_dists normalize_sp_pos split: if_splits)
qed

subsection \<open>The ensemble of sportypredictor\<close>

lemma mem_sp: "''R'' \<in> set OUTCOMES_sp" "''B'' \<in> set OUTCOMES_sp" "''G'' \<in> set OUTCOMES_sp"
  by (simp_all add: OUTCOMES_sp_def)

lemma mem_adv: "''RED'' \<in> set OUTCOMES" "''BLACK'' \<in> set OUTCOMES" "''GREEN'' \<in> set OUTCOMES"
  by (simp_all add: OUTCOMES_def)

lemma normalizeWeights_ok:
  assumes "weights_ok w"
  shows "0 \<le> slot (normalizeWeights w)" "0 \<le> markov (normalizeWeights w)" "0 \<le> pattern (normalizeWeights w)"
    "0 < slot (normalizeWeights w) + markov (normalizeWeights w) + pattern (normalizeWeights w)"
proof -
  let ?t = "slot w + markov w + pattern w + streak w"
  have t: "0 < ?t" using assms by (simp add: weights_ok_def)
  then have n: "normalizeWeights w = \<lparr>slot = slot w / ?t, markov = markov w / ?t, pattern = pattern w / ?t,
          streak = streak w / ?t\<rparr>"
    by (simp add: normalizeWeights_def Let_def)
  show "0 \<le> slot (normalizeWeights w)" "0 \<le> markov (normalizeWeights w)" "0 \<le> pattern (normalizeWeights w)"
    using assms t by (simp_all add: n weights_ok_def)
  have "slot w / ?t + markov w / ?t + pattern w / ?t = (slot w + markov w + pattern w) / ?t"
    by (simp add: add_divide_distrib)
  then show "0 < slot (normalizeWeights w) + markov (normalizeWeights w) + pattern (normalizeWeights w)"
    using assms t by (simp add: n weights_ok_def)
qed

lemma slotWithGlobal_dist:
  assumes "models_ok m" "s < GAMES_PER_ROUND"
  shows "is_dist OUTCOMES_sp (slotWithGlobal m s)"
proof -
  have a: "is_dist OUTCOMES_sp (slotPosteriors m ! s)" and g: "is_dist OUTCOMES_sp (globalPosterior m)"
    using assms by (auto simp: models_ok_def dists_ok_def)
  show ?thesis
    using a g
    by (simp add: is_dist_sp_iff slotWithGlobal_def Let_def mem_sp MIX_GLOBAL_sp_def)
qed

lemma streak_sp_cases:
  "applyStreakAdjustment p h s = p
   \<or> (\<exists>w\<in>set OUTCOMES_sp. applyStreakAdjustment p h s = (\<lambda>k. capped p w k / sumValues OUTCOMES_sp (capped p w)))"
proof (cases "STREAK_WINDOW \<le> length h
    \<and> every_same (map (\<lambda>r. games_at r s) (slice_last STREAK_WINDOW h))
    \<and> includes_sp (hd (map (\<lambda>r. games_at r s) (slice_last STREAK_WINDOW h)))")
  case False
  then show ?thesis by (auto simp: applyStreakAdjustment_def Let_def)
next
  case True
  then obtain w where w: "hd (map (\<lambda>r. games_at r s) (slice_last STREAK_WINDOW h)) = Some w" "w \<in> set OUTCOMES_sp"
    by (auto simp: includes_sp_def split: option.splits)
  have "applyStreakAdjustment p h s = (\<lambda>k. capped p w k / sumValues OUTCOMES_sp (capped p w))"
    using True w
    by (simp add: applyStreakAdjustment_def Let_def capTransfer_others length_others_sp others_sp_nonempty
        capped_def)
  then show ?thesis using w by blast
qed

lemma capped_dist:
  assumes "w \<in> set OUTCOMES_sp" "0 \<le> p ''R''" "0 \<le> p ''B''" "0 \<le> p ''G''"
  shows "is_dist OUTCOMES_sp (\<lambda>k. capped p w k / sumValues OUTCOMES_sp (capped p w))"
proof -
  let ?q = "capped p w"
  have nn: "0 \<le> ?q ''R''" "0 \<le> ?q ''B''" "0 \<le> ?q ''G''"
    using assms by (auto simp: capped_def STREAK_BONUS_sp_def OUTCOMES_sp_def elim!: OUTCOMES_sp_cases)
  have pos: "0 < ?q ''R'' + ?q ''B'' + ?q ''G''"
    using assms(1)
  proof (cases rule: OUTCOMES_sp_cases)
    case 1
    then have "0 < ?q ''B''" using assms by (simp add: capped_def STREAK_BONUS_sp_def OUTCOMES_sp_def)
    then show ?thesis using nn by linarith
  next
    case 2
    then have "0 < ?q ''R''" using assms by (simp add: capped_def STREAK_BONUS_sp_def OUTCOMES_sp_def)
    then show ?thesis using nn by linarith
  next
    case 3
    then have "0 < ?q ''R''" using assms by (simp add: capped_def STREAK_BONUS_sp_def OUTCOMES_sp_def)
    then show ?thesis using nn by linarith
  qed
  have "normalize_sp ?q = (\<lambda>k. ?q k / sumValues OUTCOMES_sp ?q)"
    using pos by (simp add: normalize_sp_def Let_def OUTCOMES_sp_def sumValues_3)
  then show ?thesis using normalize_sp_dist [OF nn pos] by simp
qed

lemma applyStreakAdjustment_dist:
  assumes "is_dist OUTCOMES_sp p"
  shows "is_dist OUTCOMES_sp (applyStreakAdjustment p h s)"
  using streak_sp_cases [of p h s] assms capped_dist [of _ p]
  by (auto simp: is_dist_sp_iff)

lemma applyStreakAdjustment_mass:
  assumes "0 \<le> p ''R''" "0 \<le> p ''B''" "0 \<le> p ''G''" "0 < p ''R'' + p ''B'' + p ''G''"
  shows "is_dist OUTCOMES_sp (normalize_sp (applyStreakAdjustment p h s))"
  using streak_sp_cases [of p h s]
proof
  assume "applyStreakAdjustment p h s = p"
  then show ?thesis using normalize_sp_dist [OF assms] by simp
next
  assume "\<exists>w\<in>set OUTCOMES_sp. applyStreakAdjustment p h s = (\<lambda>k. capped p w k / sumValues OUTCOMES_sp (capped p w))"
  then obtain w where w: "w \<in> set OUTCOMES_sp"
    and e: "applyStreakAdjustment p h s = (\<lambda>k. capped p w k / sumValues OUTCOMES_sp (capped p w))" by blast
  have d: "is_dist OUTCOMES_sp (applyStreakAdjustment p h s)"
    using capped_dist [OF w assms(1-3)] e by simp
  then have "normalize_sp (applyStreakAdjustment p h s) = applyStreakAdjustment p h s"
    by (simp add: normalize_sp_def Let_def is_dist_def)
  then show ?thesis using d by simp
qed

lemma uniform_sp: "fromEntries OUTCOMES_sp (1 / real (length OUTCOMES_sp)) = fromEntries OUTCOMES_sp (1 / 3)"
  by (simp add: OUTCOMES_sp_def)

lemma blendSlot_dist:
  assumes m: "models_ok m" and w: "weights_ok w" and s: "s < GAMES_PER_ROUND"
  shows "is_dist OUTCOMES_sp (blendSlot (normalizeWeights w) h m s)"
proof -
  let ?ns = "normalizeWeights w"
  define A where "A = slotWithGlobal m s"
  define B where "B = (if 0 < length h then
                       (case games_at (last h) s of
                          Some prev \<Rightarrow>
                            if prev \<in> set OUTCOMES_sp \<and> s < length (markovProbs m) then
                              (case (markovProbs m ! s) prev of Some row \<Rightarrow> row
                               | None \<Rightarrow> fromEntries OUTCOMES_sp (1 / real (length OUTCOMES_sp)))
                            else fromEntries OUTCOMES_sp (1 / real (length OUTCOMES_sp))
                        | None \<Rightarrow> fromEntries OUTCOMES_sp (1 / real (length OUTCOMES_sp)))
                     else fromEntries OUTCOMES_sp (1 / real (length OUTCOMES_sp)))"
  define key where "key = (if h \<noteq> [] then join '','' (games (last h)) else [])"
  define C where "C = (case (if key \<noteq> [] then
                        (case patternProbs m key of Some rows \<Rightarrow> Some (rows ! s) | None \<Rightarrow> None)
                      else None) of Some pp \<Rightarrow> pp | None \<Rightarrow> A)"
  define comb where "comb = (\<lambda>k. if k \<in> set OUTCOMES_sp then
                         slot ?ns * A k + markov ?ns * B k + pattern ?ns * C k else 0)"
  have dA: "is_dist OUTCOMES_sp A" unfolding A_def by (rule slotWithGlobal_dist [OF m s])
  have dB: "is_dist OUTCOMES_sp B"
    using m s is_dist_uniform(2)
    by (auto simp: B_def uniform_sp models_ok_def split: option.splits)
  have dC: "is_dist OUTCOMES_sp C"
    using m s dA by (auto simp: C_def models_ok_def dists_ok_def split: option.splits)
  have blend: "blendSlot ?ns h m s = normalize_sp (applyStreakAdjustment comb h s)"
    unfolding blendSlot_def Let_def comb_def A_def B_def C_def key_def
    by (intro arg_cong [where f = normalize_sp] arg_cong [where f = "\<lambda>c. applyStreakAdjustment c h s"] ext)
       (auto split: option.splits)
  note nw = normalizeWeights_ok [OF w]
  have nn: "0 \<le> comb ''R''" "0 \<le> comb ''B''" "0 \<le> comb ''G''"
    using dA dB dC nw by (simp_all add: comb_def mem_sp is_dist_sp_iff)
  have "comb ''R'' + comb ''B'' + comb ''G''
      = slot ?ns * (A ''R'' + A ''B'' + A ''G'') + markov ?ns * (B ''R'' + B ''B'' + B ''G'')
        + pattern ?ns * (C ''R'' + C ''B'' + C ''G'')"
    by (simp add: comb_def mem_sp algebra_simps)
  also have "\<dots> = slot ?ns + markov ?ns + pattern ?ns"
    using dA dB dC by (simp add: is_dist_sp_iff)
  finally have pos: "0 < comb ''R'' + comb ''B'' + comb ''G''" using nw by simp
  show ?thesis unfolding blend by (rule applyStreakAdjustment_mass [OF nn pos])
qed

lemma predictEnsemble_dist:
  assumes "weights_ok (case weightsOpt of Some w \<Rightarrow> w | None \<Rightarrow> W)" "s < GAMES_PER_ROUND"
  shows "is_dist OUTCOMES_sp (blendedSlots (predictEnsemble W h (buildModels h) weightsOpt) ! s)"
  using assms by (simp add: predictEnsemble_def Let_def blendSlot_dist buildModels_ok)

lemma predictEnsemble_zero:
  "blendedSlots (predictEnsemble W_default [] (buildModels []) (Some \<lparr>slot = 0, markov = 0, pattern = 0, streak = 1\<rparr>)) ! 0
     = (\<lambda>k. 0)"
  by (auto simp: predictEnsemble_def Let_def GAMES_PER_ROUND_def blendSlot_def applyStreakAdjustment_Nil
      normalizeWeights_def normalize_sp_def sumValues_3 OUTCOMES_sp_def upt_rec fun_eq_iff)

subsection \<open>Components of the advanced predictor\<close>

lemma foldl_plus: "foldl (+) (a::real) xs = a + sum_list xs"
  by (induction xs arbitrary: a) simp_all

lemma sumValues_sum_list: "sumValues keys p = sum_list (map p keys)"
  by (simp add: sumValues_def foldl_plus)

lemma marginal_step_nonneg:
  assumes "\<forall>k. 0 \<le> counts k"
  shows "\<forall>k. 0 \<le> marginal_step h i counts k"
  using assms by (auto simp: marginal_step_def Let_def DECAY_adv_def)

lemma marginal_counts_nonneg:
  "\<forall>k. 0 \<le> fold (marginal_step h) xs (fromEntries OUTCOMES 0) k"
proof (rule fold_invariant [where Q = "\<lambda>i. True" and P = "\<lambda>c. \<forall>k. 0 \<le> c k"])
  show "\<forall>k. 0 \<le> fromEntries OUTCOMES 0 k" by (simp add: fromEntries_def)
qed (use marginal_step_nonneg in auto)

lemma buildMarginal_nonneg: "0 \<le> buildMarginal h k"
  using marginal_counts_nonneg [of h "[0..<length h]"]
  by (auto simp: buildMarginal_def Let_def sumValues_3 OUTCOMES_def intro!: divide_nonneg_nonneg add_nonneg_nonneg)

lemma marginal_counts_last:
  assumes "h \<noteq> []"
  shows "1 \<le> fold (marginal_step h) [0..<length h] (fromEntries OUTCOMES 0) (outcome (last h))"
proof -
  obtain n where n: "length h = Suc n" using assms by (cases h) auto
  have l: "h ! n = last h" using n assms by (simp add: last_conv_nth)
  have "fold (marginal_step h) [0..<length h] (fromEntries OUTCOMES 0)
      = marginal_step h n (fold (marginal_step h) [0..<n] (fromEntries OUTCOMES 0))"
    by (simp add: n)
  moreover have "0 \<le> fold (marginal_step h) [0..<n] (fromEntries OUTCOMES 0) (outcome (last h))"
    using marginal_counts_nonneg by blast
  ultimately show ?thesis by (simp add: marginal_step_def Let_def l n)
qed

lemma buildMarginal_dist:
  assumes "h \<noteq> []" "\<forall>e\<in>set h. outcome e \<in> set OUTCOMES"
  shows "is_dist OUTCOMES (buildMarginal h)"
proof -
  define c where "c = fold (marginal_step h) [0..<length h] (fromEntries OUTCOMES 0)"
  have nn: "0 \<le> c ''RED''" "0 \<le> c ''BLACK''" "0 \<le> c ''GREEN''"
    using marginal_counts_nonneg [of h "[0..<length h]"] by (auto simp: c_def)
  have "outcome (last h) \<in> set OUTCOMES" using assms by simp
  then have "1 \<le> c ''RED'' \<or> 1 \<le> c ''BLACK'' \<or> 1 \<le> c ''GREEN''"
    using marginal_counts_last [OF assms(1)] by (auto simp: c_def elim!: OUTCOMES_cases)
  then have pos: "0 < c ''RED'' + c ''BLACK'' + c ''GREEN''" using nn by linarith
  have np: "\<not> list_ex (\<lambda>e. outcome e \<notin> set OUTCOMES) h" using assms(2) by (simp add: list_ex_iff)
  have s: "sumValues OUTCOMES c = c ''RED'' + c ''BLACK'' + c ''GREEN''"
    by (simp add: OUTCOMES_def sumValues_3)
  have b: "buildMarginal h = (\<lambda>k. if k \<in> set OUTCOMES then c k / (c ''RED'' + c ''BLACK'' + c ''GREEN'') else 0)"
    unfolding buildMarginal_def Let_def c_def [symmetric] s using pos np by simp
  have "c ''RED'' / (c ''RED'' + c ''BLACK'' + c ''GREEN'') + c ''BLACK'' / (c ''RED'' + c ''BLACK'' + c ''GREEN'')
      + c ''GREEN'' / (c ''RED'' + c ''BLACK'' + c ''GREEN'') = 1"
    using pos by (simp add: add_divide_distrib [symmetric])
  then show ?thesis using nn pos by (simp add: is_dist_iff b mem_adv)
qed

lemma markov_step_adv_nonneg:
  assumes "\<forall>a k. 0 \<le> counts a k"
  shows "\<forall>a k. 0 \<le> markov_step_adv h i counts a k"
  using assms by (auto simp: markov_step_adv_def Let_def DECAY_adv_def)

lemma markovCounts_adv_nonneg: "0 \<le> markovCounts_adv h a k"
proof -
  have "\<forall>a k. 0 \<le> fold (markov_step_adv h) [1..<length h] (\<lambda>a. fromEntries OUTCOMES 0) a k"
  proof (rule fold_invariant [where Q = "\<lambda>i. True" and P = "\<lambda>c. \<forall>a k. 0 \<le> c a k"])
    show "\<forall>a k. 0 \<le> fromEntries OUTCOMES 0 k" by (simp add: fromEntries_def)
  qed (use markov_step_adv_nonneg in auto)
  then show ?thesis by (simp add: markovCounts_adv_def)
qed

lemma buildMarkov_dist:
  assumes "buildMarkov h a = Some row"
  shows "is_dist OUTCOMES row"
proof -
  define c where "c = markovCounts_adv h a"
  have nn: "0 \<le> c ''RED''" "0 \<le> c ''BLACK''" "0 \<le> c ''GREEN''"
    by (simp_all add: c_def markovCounts_adv_nonneg)
  have s: "sumValues OUTCOMES c = c ''RED'' + c ''BLACK'' + c ''GREEN''"
    by (simp add: OUTCOMES_def sumValues_3)
  show ?thesis
  proof (cases "c ''RED'' + c ''BLACK'' + c ''GREEN'' = 0")
    case True
    then have "row = fromEntries OUTCOMES (1 / 3)"
      using assms unfolding buildMarkov_def Let_def c_def [symmetric] s
      by (auto split: if_splits) (simp add: OUTCOMES_def)
    then show ?thesis by (simp add: is_dist_uniform)
  next
    case False
    then have r: "row = (\<lambda>b. if b \<in> set OUTCOMES then c b / (c ''RED'' + c ''BLACK'' + c ''GREEN'') else 0)"
      using assms unfolding buildMarkov_def Let_def c_def [symmetric] s
      by (auto split: if_splits)
    have pos: "0 < c ''RED'' + c ''BLACK'' + c ''GREEN''" using False nn by linarith
    have "c ''RED'' / (c ''RED'' + c ''BLACK'' + c ''GREEN'') + c ''BLACK'' / (c ''RED'' + c ''BLACK'' + c ''GREEN'')
      + c ''GREEN'' / (c ''RED'' + c ''BLACK'' + c ''GREEN'') = 1"
      using pos by (simp add: add_divide_distrib [symmetric])
    then show ?thesis using nn pos by (simp add: is_dist_iff r mem_adv)
  qed
qed

lemma softmax_props:
  assumes "arr \<noteq> []"
  shows "sum_list (softmax arr) = 1 \<and> (\<forall>x\<in>set (softmax arr). 0 < x) \<and> length (softmax arr) = length arr"
proof -
  define mx where "mx = foldl max (hd arr) (tl arr)"
  define exps where "exps = map (\<lambda>v. exp (v - mx)) arr"
  define t where "t = sum_list exps"
  have epos: "\<forall>x\<in>set exps. 0 < x" by (auto simp: exps_def)
  have ne: "exps \<noteq> []" using assms by (simp add: exps_def)
  have tpos: "0 < t"
  proof -
    obtain a rest where ar: "exps = a # rest" using ne by (cases exps) auto
    have "0 \<le> sum_list rest" using epos ar by (intro sum_list_nonneg) (simp add: less_imp_le)
    moreover have "0 < a" using epos ar by simp
    ultimately show ?thesis by (simp add: t_def ar add_pos_nonneg)
  qed
  have sm: "softmax arr = map (\<lambda>e. e / t) exps"
    unfolding softmax_def Let_def mx_def [symmetric] exps_def [symmetric] foldl_plus
    using assms tpos by (simp add: t_def)
  have "sum_list (map (\<lambda>e. e / t) exps) = sum_list exps / t"
    by (induction exps) (simp_all add: add_divide_distrib)
  then have "sum_list (softmax arr) = 1" using tpos by (simp add: sm t_def)
  moreover have "\<forall>x\<in>set (softmax arr). 0 < x" using epos tpos by (auto simp: sm)
  moreover have "length (softmax arr) = length arr" by (simp add: sm exps_def)
  ultimately show ?thesis by blast
qed

lemma predictSoftmaxModel_dist:
  assumes "predictSoftmaxModel (Some m) x = Some d"
  shows "is_dist OUTCOMES d"
proof -
  let ?probs = "softmax (logitsOf (mW m) (mb m) x)"
  have ne: "logitsOf (mW m) (mb m) x \<noteq> []" by (simp add: logitsOf_def K_adv_def OUTCOMES_def)
  have len: "length ?probs = 3"
    using softmax_props [OF ne] by (simp add: logitsOf_def K_adv_def OUTCOMES_def)
  then obtain p0 p1 p2 where p: "?probs = [p0, p1, p2]"
    by (cases ?probs; cases "tl ?probs"; cases "tl (tl ?probs)") auto
  have "sum_list ?probs = 1" "\<forall>x\<in>set ?probs. 0 < x"
    using softmax_props [OF ne] by simp_all
  then have v: "p0 + p1 + p2 = 1" "0 < p0" "0 < p1" "0 < p2" by (simp_all add: p)
  have d: "d = (\<lambda>k. case indexOf OUTCOMES k of Some j \<Rightarrow> ?probs ! j | None \<Rightarrow> 0)"
    using assms by (auto simp: predictSoftmaxModel_def Let_def)
  have dv: "d ''RED'' = p0" "d ''BLACK'' = p1" "d ''GREEN'' = p2"
    by (simp_all add: d OUTCOMES_def p)
  show ?thesis using v dv by (simp add: is_dist_iff)
qed

lemma streak_adv_dist:
  assumes "is_dist OUTCOMES p"
  shows "is_dist OUTCOMES (applyStreakBias_adv p h)"
proof (cases "STREAK_WINDOW \<le> length h \<and> every_same (slice_last STREAK_WINDOW h)
               \<and> hd (slice_last STREAK_WINDOW h) \<in> set OUTCOMES")
  case False
  then show ?thesis using assms by (simp add: streak_adv_noop)
next
  case True
  define v where "v = hd (slice_last STREAK_WINDOW h)"
  have vin: "v \<in> set OUTCOMES" using True v_def by simp
  have eq: "applyStreakBias_adv p h =
     (\<lambda>k. if k = v then max 0 (p v - min STREAK_BONUS_adv (p v / 2))
          else if k \<in> set OUTCOMES then p k + min STREAK_BONUS_adv (p v / 2) / 2 else p k)"
    using True streak_adv_apply [of h v p] v_def by simp
  from vin show ?thesis
    using assms
    by (cases rule: OUTCOMES_cases)
      (auto simp: eq is_dist_iff mem_adv STREAK_BONUS_adv_def max_def min_def)
qed

subsection \<open>The ensemble of the advanced predictor and index.cjs\<close>

lemma streak_adv_keeps:
  assumes "0 \<le> p ''RED''" "0 \<le> p ''BLACK''" "0 \<le> p ''GREEN''"
  shows "0 \<le> applyStreakBias_adv p h ''RED'' \<and> 0 \<le> applyStreakBias_adv p h ''BLACK''
     \<and> 0 \<le> applyStreakBias_adv p h ''GREEN''
     \<and> applyStreakBias_adv p h ''RED'' + applyStreakBias_adv p h ''BLACK'' + applyStreakBias_adv p h ''GREEN''
        = p ''RED'' + p ''BLACK'' + p ''GREEN''"
proof (cases "STREAK_WINDOW \<le> length h \<and> every_same (slice_last STREAK_WINDOW h)
               \<and> hd (slice_last STREAK_WINDOW h) \<in> set OUTCOMES")
  case False
  then show ?thesis using assms by (simp add: streak_adv_noop)
next
  case True
  define v where "v = hd (slice_last STREAK_WINDOW h)"
  have vin: "v \<in> set OUTCOMES" using True v_def by simp
  have eq: "applyStreakBias_adv p h =
     (\<lambda>k. if k = v then max 0 (p v - min STREAK_BONUS_adv (p v / 2))
          else if k \<in> set OUTCOMES then p k + min STREAK_BONUS_adv (p v / 2) / 2 else p k)"
    using True streak_adv_apply [of h v p] v_def by simp
  from vin show ?thesis
    using assms
    by (cases rule: OUTCOMES_cases)
      (auto simp: eq mem_adv STREAK_BONUS_adv_def max_def min_def)
qed

lemma scale_dist:
  assumes "0 \<le> c ''RED''" "0 \<le> c ''BLACK''" "0 \<le> c ''GREEN''" "0 < c ''RED'' + c ''BLACK'' + c ''GREEN''"
  shows "is_dist OUTCOMES (\<lambda>k. c k / (c ''RED'' + c ''BLACK'' + c ''GREEN''))"
proof -
  have "c ''RED'' / (c ''RED'' + c ''BLACK'' + c ''GREEN'') + c ''BLACK'' / (c ''RED'' + c ''BLACK'' + c ''GREEN'')
      + c ''GREEN'' / (c ''RED'' + c ''BLACK'' + c ''GREEN'') = 1"
    using assms(4) by (simp add: add_divide_distrib [symmetric])
  then show ?thesis using assms by (simp add: is_dist_iff)
qed

lemma sumValues_OUTCOMES: "sumValues OUTCOMES c = c ''RED'' + c ''BLACK'' + c ''GREEN''"
  by (simp add: OUTCOMES_def sumValues_3)

lemma ensemblePredict_dist:
  assumes "\<forall>m. model = Some m \<longrightarrow> wf_model 17 m"
  shows "is_dist OUTCOMES (ensemblePredict hourOf now h model)"
proof -
  define G where "G = buildMarginal h"
  define L where "L = (case predictSoftmaxModel model (buildFeatureFromHistory hourOf now h (length h)) of
                           Some probs \<Rightarrow> probs
                         | None \<Rightarrow> fromEntries OUTCOMES (1 / real (length OUTCOMES)))"
  define M where "M = (if h \<noteq> [] then
                           (case buildMarkov h (outcome (last h)) of
                              Some row \<Rightarrow> if outcome (last h) \<noteq> [] then row else G
                            | None \<Rightarrow> G)
                         else G)"
  define comb where "comb = (\<lambda>k. if k \<in> set OUTCOMES then
                             MIX_LOGREG * L k + MIX_MARKOV * M k + MIX_MARG * G k
                           else 0)"
  define cl where "cl = applyStreakBias_adv comb (map outcome h)"
  have e: "ensemblePredict hourOf now h model
      = (\<lambda>k. cl k / (if sumValues OUTCOMES cl = 0 then 1 else sumValues OUTCOMES cl))"
    unfolding ensemblePredict_def Let_def cl_def comb_def M_def L_def G_def by (rule refl)
  have gG: "0 \<le> G k" for k by (simp add: G_def buildMarginal_nonneg)
  have dL: "is_dist OUTCOMES L"
  proof (cases "predictSoftmaxModel model (buildFeatureFromHistory hourOf now h (length h))")
    case None
    then show ?thesis by (simp add: L_def OUTCOMES_def is_dist_uniform [unfolded OUTCOMES_def])
  next
    case (Some d)
    then obtain m where "model = Some m" by (cases model) (auto simp: predictSoftmaxModel_def)
    then show ?thesis using Some predictSoftmaxModel_dist by (simp add: L_def)
  qed
  have gM: "0 \<le> M ''RED'' \<and> 0 \<le> M ''BLACK'' \<and> 0 \<le> M ''GREEN''"
    using gG buildMarkov_dist [of h "outcome (last h)"]
    by (auto simp: M_def is_dist_iff split: option.splits)
  have nn: "0 \<le> comb ''RED''" "0 \<le> comb ''BLACK''" "0 \<le> comb ''GREEN''"
    using dL gM gG by (simp_all add: comb_def mem_adv is_dist_iff MIX_LOGREG_def MIX_MARKOV_def MIX_MARG_def)
  have "MIX_LOGREG * (L ''RED'' + L ''BLACK'' + L ''GREEN'') \<le> comb ''RED'' + comb ''BLACK'' + comb ''GREEN''"
    using gM gG [of "''RED''"] gG [of "''BLACK''"] gG [of "''GREEN''"]
    by (simp add: comb_def mem_adv MIX_LOGREG_def MIX_MARKOV_def MIX_MARG_def algebra_simps)
  then have pos: "0 < comb ''RED'' + comb ''BLACK'' + comb ''GREEN''"
    using dL by (simp add: is_dist_iff MIX_LOGREG_def)
  from streak_adv_keeps [OF nn, of "map outcome h"]
  have c: "0 \<le> cl ''RED''" "0 \<le> cl ''BLACK''" "0 \<le> cl ''GREEN''"
    "0 < cl ''RED'' + cl ''BLACK'' + cl ''GREEN''"
    using pos by (simp_all add: cl_def)
  show ?thesis
    using scale_dist [OF c] c(4) by (simp add: e sumValues_OUTCOMES)
qed

lemma init_rb_ok: "state_ok init_rb"
  by (simp add: state_ok_def init_rb_def fromEntries_def ALPHA_def)

lemma updateModel_ok: "state_ok m \<Longrightarrow> state_ok (updateModel observed m)"
  by (auto simp: state_ok_def updateModel_def decayCounts_def Let_def DECAY_rb_def split: option.splits
      intro: add_pos_nonneg)

lemma replay_ok: "state_ok m \<Longrightarrow> state_ok (fold updateModel obs m)"
  by (induction obs arbitrary: m) (simp_all add: updateModel_ok)

lemma normalizeDict_dist:
  assumes "0 \<le> c ''RED''" "0 \<le> c ''BLACK''" "0 \<le> c ''GREEN''" "0 < c ''RED'' + c ''BLACK'' + c ''GREEN''"
  shows "is_dist OUTCOMES (normalizeDict c)"
  using scale_dist [OF assms] assms(4) by (simp add: normalizeDict_def Let_def sumValues_OUTCOMES)

lemma normalizeDict_sum:
  "sumValues OUTCOMES obj \<noteq> 0 \<Longrightarrow> sumValues OUTCOMES (normalizeDict obj) = 1"
  by (simp add: normalizeDict_def Let_def sumValues_OUTCOMES add_divide_distrib [symmetric])

lemma normalize_sp_sum:
  "sumValues OUTCOMES_sp obj \<noteq> 0 \<Longrightarrow> sumValues OUTCOMES_sp (normalize_sp obj) = 1"
  by (simp add: normalize_sp_def Let_def OUTCOMES_sp_def sumValues_3 add_divide_distrib [symmetric])

lemma streak_rb_dist:
  assumes "is_dist OUTCOMES p"
  shows "is_dist OUTCOMES (applyStreakBias_rb p h)"
proof (cases "STREAK_WINDOW \<le> length h \<and> every_same (slice_last STREAK_WINDOW h)
               \<and> hd (slice_last STREAK_WINDOW h) \<in> set OUTCOMES")
  case False
  then show ?thesis using assms by (auto simp: applyStreakBias_rb_def Let_def)
next
  case True
  define v where "v = hd (slice_last STREAK_WINDOW h)"
  define adj where "adj = (\<lambda>k. if k = v then max 0 (p v - min STREAK_BONUS_rb (p v / 2))
          else if k \<in> set OUTCOMES then p k + min STREAK_BONUS_rb (p v / 2) / 2 else p k)"
  have vin: "v \<in> set OUTCOMES" using True v_def by simp
  have eq: "applyStreakBias_rb p h = normalizeDict adj"
    using True streak_rb_apply [of h v p] v_def adj_def by simp
  have "is_dist OUTCOMES adj"
    using vin assms unfolding adj_def
    by (cases rule: OUTCOMES_cases)
      (auto simp: is_dist_iff mem_adv STREAK_BONUS_rb_def max_def min_def)
  then show ?thesis by (simp add: eq normalizeDict_id is_dist_def)
qed

lemma predictDistribution_dist:
  assumes "state_ok m"
  shows "is_dist OUTCOMES (predictDistribution m hs)"
proof -
  define base where "base = (case lastOutcome m of
                        Some l \<Rightarrow> if l \<in> set OUTCOMES then normalizeDict (trans m l)
                                  else normalizeDict (marg m)
                      | None \<Rightarrow> normalizeDict (marg m))"
  define glob where "glob = normalizeDict (marg m)"
  define blended where "blended = (\<lambda>k. if k \<in> set OUTCOMES
                         then (1 - MIX_GLOBAL_rb) * base k + MIX_GLOBAL_rb * glob k else 0)"
  have p: "predictDistribution m hs = normalizeDict (applyStreakBias_rb blended hs)"
    unfolding predictDistribution_def Let_def blended_def base_def glob_def by (rule refl)
  have mp: "0 < marg m ''RED''" "0 < marg m ''BLACK''" "0 < marg m ''GREEN''"
    using assms by (simp_all add: state_ok_def mem_adv)
  have g: "is_dist OUTCOMES glob"
    unfolding glob_def using mp by (intro normalizeDict_dist) simp_all
  have t: "is_dist OUTCOMES (normalizeDict (trans m l))" if "l \<in> set OUTCOMES" for l
  proof -
    have "0 < trans m l ''RED''" "0 < trans m l ''BLACK''" "0 < trans m l ''GREEN''"
      using assms that by (simp_all add: state_ok_def mem_adv)
    then show ?thesis by (intro normalizeDict_dist) simp_all
  qed
  have b: "is_dist OUTCOMES base"
    using g t by (auto simp: base_def glob_def split: option.splits)
  have "is_dist OUTCOMES blended"
    using b g by (simp add: is_dist_iff blended_def mem_adv MIX_GLOBAL_rb_def)
  then have "is_dist OUTCOMES (applyStreakBias_rb blended hs)" by (rule streak_rb_dist)
  then show ?thesis by (simp add: p normalizeDict_id is_dist_def)
qed

subsection \<open>Walk-forward evaluation of sportypredictor\<close>

lemma wf_step_sp_prefix: "prefix (wf_step_sp W h wo i st) = prefix st @ [h ! i]"
  by (simp add: wf_step_sp_def Let_def)

lemma wf_step_sp_made:
  "made_sp (wf_step_sp W h wo i st) = made_sp st @ [(i + 1, pred_sp W wo (prefix st @ [h ! i]))]"
  by (simp add: wf_step_sp_def Let_def pred_sp_def)

lemma wf_sp_state:
  assumes "n < length h"
  shows "prefix (fold (wf_step_sp W h wo) [0..<n] wf_init_sp) = take n h
       \<and> made_sp (fold (wf_step_sp W h wo) [0..<n] wf_init_sp)
           = map (\<lambda>i. (i + 1, pred_sp W wo (take (i + 1) h))) [0..<n]"
  using assms
proof (induction n)
  case 0
  then show ?case by (simp add: wf_init_sp_def)
next
  case (Suc n)
  then have IH: "prefix (fold (wf_step_sp W h wo) [0..<n] wf_init_sp) = take n h"
    "made_sp (fold (wf_step_sp W h wo) [0..<n] wf_init_sp)
           = map (\<lambda>i. (i + 1, pred_sp W wo (take (i + 1) h))) [0..<n]"
    by simp_all
  have t: "take n h @ [h ! n] = take (Suc n) h"
    using Suc.prems by (simp add: take_Suc_conv_app_nth)
  show ?case
    by (simp add: wf_step_sp_prefix wf_step_sp_made IH t)
qed

lemma map_of_made:
  "map_of (map (\<lambda>i. (Suc i, f (Suc i))) [0..<n]) r = (if 1 \<le> r \<and> r \<le> n then Some (f r) else None)"
proof (induction n)
  case 0
  then show ?case by simp
next
  case (Suc n)
  show ?case
    by (auto simp: map_of_append map_add_def Suc le_Suc_eq split: option.splits)
qed

lemma predictionFor_sp_eq:
  "predictionFor_sp W h wo r =
     (if 1 \<le> r \<and> r < length h then Some (pred_sp W wo (take r h)) else None)"
proof (cases "length h < 2")
  case True
  then show ?thesis by (auto simp: predictionFor_sp_def wf_run_sp_def wf_init_sp_def)
next
  case False
  then have n: "length h - 1 < length h" by simp
  have "made_sp (wf_run_sp W h wo) = map (\<lambda>i. (i + 1, pred_sp W wo (take (i + 1) h))) [0..<length h - 1]"
    using False wf_sp_state [OF n, of W wo] by (simp add: wf_run_sp_def)
  then show ?thesis
    using False map_of_made [of "\<lambda>k. pred_sp W wo (take k h)" "length h - 1" r]
    by (auto simp: predictionFor_sp_def)
qed

lemma predictionFor_sp_prefix:
  assumes "r < length g1" "r < length g2" "take r g1 = take r g2"
  shows "predictionFor_sp W g1 wo r = predictionFor_sp W g2 wo r"
  using assms by (simp add: predictionFor_sp_eq)

subsection \<open>Walk-forward evaluation of the advanced predictor\<close>

lemma slice_0: "slice 0 i h = take i h"
  by (simp add: slice_def)

lemma wf_predict_cong:
  assumes "take i h1 = take i h2"
  shows "wf_predict hourOf now h1 i r = wf_predict hourOf now h2 i r"
  using assms by (simp add: wf_predict_def slice_0)

lemma wf_step_cong:
  assumes "take (Suc i) h1 = take (Suc i) h2" "i < length h1" "i < length h2"
  shows "wf_step hourOf now h1 i st = wf_step hourOf now h2 i st"
proof -
  have a: "take i h1 = take i h2"
    using assms(1) by (metis take_take min.absorb1 le_add2 plus_1_eq_Suc)
  have b: "h1 ! i = h2 ! i"
    using assms by (metis lessI nth_take)
  show ?thesis
    unfolding wf_step_def wf_predict_cong [OF a, of hourOf now] b by (rule refl)
qed

lemma wf_loop_cong:
  assumes "take n h1 = take n h2" "n \<le> length h1" "n \<le> length h2" "\<forall>i\<in>set idxs. i < n"
  shows "wf_loop hourOf now h1 idxs st = wf_loop hourOf now h2 idxs st"
  using assms(4)
proof (induction idxs arbitrary: st)
  case Nil
  then show ?case by simp
next
  case (Cons i idxs)
  have i: "i < n" using Cons.prems by simp
  have "take (Suc i) h1 = take (Suc i) h2"
    using assms(1) i by (metis Suc_leI take_take min.absorb1)
  then have s: "wf_step hourOf now h1 i st = wf_step hourOf now h2 i st"
    using i assms(2,3) by (intro wf_step_cong) auto
  show ?case using Cons s by (simp split: prod.splits option.splits)
qed

lemma wf_loop_append:
  "wf_loop hourOf now h (xs @ ys) st =
     (case wf_loop hourOf now h xs st of
        (st1, Some e) \<Rightarrow> (st1, Some e)
      | (st1, None) \<Rightarrow> wf_loop hourOf now h ys st1)"
  by (induction xs arbitrary: st) (auto split: prod.splits option.splits)

lemma wf_step_made:
  "made (fst (wf_step hourOf now h i st)) =
     (case wf_predict hourOf now h i (source st) of
        None \<Rightarrow> made st
      | Some ((d, pick), r2) \<Rightarrow> made st @ [(i, d, pick)])"
  by (auto simp: wf_step_def Let_def split: option.splits prod.splits)

lemma wf_step_keys:
  "fst ` set (made (fst (wf_step hourOf now h i st))) \<subseteq> insert i (fst ` set (made st))"
  by (auto simp: wf_step_made split: option.splits prod.splits)

lemma wf_loop_keys:
  "fst ` set (made (fst (wf_loop hourOf now h idxs st))) \<subseteq> set idxs \<union> fst ` set (made st)"
proof (induction idxs arbitrary: st)
  case Nil
  then show ?case by simp
next
  case (Cons i idxs)
  obtain st1 err where s: "wf_step hourOf now h i st = (st1, err)" by (cases "wf_step hourOf now h i st")
  have k: "fst ` set (made st1) \<subseteq> insert i (fst ` set (made st))"
    using wf_step_keys [of hourOf now h i st] s by simp
  show ?case
  proof (cases err)
    case None
    then show ?thesis using Cons [of st1] s k by auto
  next
    case (Some e)
    then show ?thesis using s k by auto
  qed
qed

lemma wf_step_lookup_other:
  "j \<noteq> i \<Longrightarrow> map_of (made (fst (wf_step hourOf now h i st))) j = map_of (made st) j"
  by (auto simp: wf_step_made map_of_append map_add_def split: option.splits prod.splits)

lemma wf_loop_lookup_other:
  "j \<notin> set idxs \<Longrightarrow> map_of (made (fst (wf_loop hourOf now h idxs st))) j = map_of (made st) j"
proof (induction idxs arbitrary: st)
  case Nil
  then show ?case by simp
next
  case (Cons i idxs)
  obtain st1 err where s: "wf_step hourOf now h i st = (st1, err)" by (cases "wf_step hourOf now h i st")
  have l: "map_of (made st1) j = map_of (made st) j"
    using wf_step_lookup_other [of j i hourOf now h st] Cons.prems s by simp
  show ?case
  proof (cases err)
    case None
    then show ?thesis using Cons s l by simp
  next
    case (Some e)
    then show ?thesis using s l by simp
  qed
qed

lemma wf_step_lookup_self:
  assumes "i \<notin> fst ` set (made st)"
  shows "map_of (made (fst (wf_step hourOf now h i st))) i
       = map_option fst (wf_predict hourOf now h i (source st))"
proof -
  have "map_of (made st) i = None" using assms by (simp add: map_of_eq_None_iff)
  then show ?thesis
    by (auto simp: wf_step_made map_of_append map_add_def split: option.splits prod.splits)
qed

lemma predictionFor_adv_eq:
  assumes "minTrainOf mt \<le> i" "i < length h"
  shows "predictionFor_adv hourOf now h mt r i =
     (case wf_loop hourOf now h [minTrainOf mt..<i] (wf_init r) of
        (st1, Some e) \<Rightarrow> None
      | (st1, None) \<Rightarrow> map_option fst (wf_predict hourOf now h i (source st1)))"
proof -
  let ?m = "minTrainOf mt"
  have "[?m..<length h] = [?m..<i] @ [i..<length h]"
    using assms by (metis le_add_diff_inverse less_imp_le_nat upt_add_eq_append)
  then have split: "[?m..<length h] = [?m..<i] @ i # [Suc i..<length h]"
    using assms by (simp add: upt_conv_Cons)
  obtain st1 err where l: "wf_loop hourOf now h [?m..<i] (wf_init r) = (st1, err)"
    by (cases "wf_loop hourOf now h [?m..<i] (wf_init r)")
  have keys: "i \<notin> fst ` set (made st1)"
    using wf_loop_keys [of hourOf now h "[?m..<i]" "wf_init r"] l by (auto simp: wf_init_def)
  have run: "wf_run hourOf now h mt r = wf_loop hourOf now h [?m..<length h] (wf_init r)"
    using assms by (simp add: wf_run_def Let_def)
  show ?thesis
  proof (cases err)
    case (Some e)
    then have "wf_run hourOf now h mt r = (st1, Some e)"
      using l by (simp add: run split wf_loop_append)
    then show ?thesis using l Some keys by (simp add: predictionFor_adv_def map_of_eq_None_iff)
  next
    case None
    obtain st2 err2 where s: "wf_step hourOf now h i st1 = (st2, err2)" by (cases "wf_step hourOf now h i st1")
    have l2: "map_of (made st2) i = map_option fst (wf_predict hourOf now h i (source st1))"
      using wf_step_lookup_self [OF keys, of hourOf now h] s by simp
    have "map_of (made (fst (wf_run hourOf now h mt r))) i = map_of (made st2) i"
    proof (cases err2)
      case None2: None
      have "wf_run hourOf now h mt r = wf_loop hourOf now h [Suc i..<length h] st2"
        using l None s None2 by (simp add: run split wf_loop_append)
      then show ?thesis
        using wf_loop_lookup_other [of i "[Suc i..<length h]" hourOf now h st2] by simp
    next
      case (Some e)
      then have "wf_run hourOf now h mt r = (st2, Some e)"
        using l None s by (simp add: run split wf_loop_append)
      then show ?thesis by simp
    qed
    then show ?thesis using l None l2 by (simp add: predictionFor_adv_def)
  qed
qed

lemma predictionFor_adv_early:
  assumes "i < minTrainOf mt"
  shows "predictionFor_adv hourOf now h mt r i = None"
proof -
  have "fst ` set (made (fst (wf_run hourOf now h mt r))) \<subseteq> {minTrainOf mt..<length h}"
    using wf_loop_keys [of hourOf now h "[minTrainOf mt..<length h]" "wf_init r"]
    by (auto simp: wf_run_def Let_def wf_init_def)
  then have "i \<notin> fst ` set (made (fst (wf_run hourOf now h mt r)))" using assms by auto
  then show ?thesis by (simp add: predictionFor_adv_def map_of_eq_None_iff)
qed

lemma predictionFor_adv_prefix:
  assumes "i < length h1" "i < length h2" "take i h1 = take i h2"
  shows "predictionFor_adv hourOf now h1 mt r i = predictionFor_adv hourOf now h2 mt r i"
proof (cases "minTrainOf mt \<le> i")
  case False
  then show ?thesis by (simp add: predictionFor_adv_early)
next
  case True
  have l: "wf_loop hourOf now h1 [minTrainOf mt..<i] (wf_init r) = wf_loop hourOf now h2 [minTrainOf mt..<i] (wf_init r)"
    using assms by (intro wf_loop_cong [where n = i]) auto
  have p: "wf_predict hourOf now h1 i r' = wf_predict hourOf now h2 i r'" for r'
    by (rule wf_predict_cong [OF assms(3)])
  show ?thesis
    unfolding predictionFor_adv_eq [OF True assms(1)] predictionFor_adv_eq [OF True assms(2)] l p
    by (rule refl)
qed

lemma wf_step_no_error:
  assumes "outcome (h ! i) \<in> set OUTCOMES"
  shows "snd (wf_step hourOf now h i st) = None"
  using assms by (auto simp: wf_step_def Let_def split: option.splits prod.splits)

lemma wf_loop_no_error:
  assumes "\<forall>j\<in>set idxs. outcome (h ! j) \<in> set OUTCOMES"
  shows "snd (wf_loop hourOf now h idxs st) = None"
  using assms
proof (induction idxs arbitrary: st)
  case Nil
  then show ?case by simp
next
  case (Cons i idxs)
  obtain st1 err where s: "wf_step hourOf now h i st = (st1, err)" by (cases "wf_step hourOf now h i st")
  have "err = None" using wf_step_no_error [of h i hourOf now st] Cons.prems s by simp
  then show ?case using Cons s by simp
qed

lemma wf_predict_Some:
  assumes "20 \<le> i" "i \<le> length h"
  shows "wf_predict hourOf now h i r \<noteq> None"
  using assms by (simp add: wf_predict_def slice_0 Let_def N_WINDOW_def split: prod.splits)

lemma predictionFor_adv_made:
  assumes "minTrainOf mt \<le> i" "20 \<le> i" "i < length h"
    and "\<forall>j. minTrainOf mt \<le> j \<and> j < i \<longrightarrow> outcome (h ! j) \<in> set OUTCOMES"
  shows "predictionFor_adv hourOf now h mt r i \<noteq> None"
proof -
  obtain st1 err where l: "wf_loop hourOf now h [minTrainOf mt..<i] (wf_init r) = (st1, err)"
    by (cases "wf_loop hourOf now h [minTrainOf mt..<i] (wf_init r)")
  have "err = None"
    using wf_loop_no_error [of "[minTrainOf mt..<i]" h hourOf now "wf_init r"] assms(4) l by simp
  moreover have "wf_predict hourOf now h i (source st1) \<noteq> None"
    using assms by (intro wf_predict_Some) auto
  ultimately show ?thesis
    using assms l by (simp add: predictionFor_adv_eq)
qed

section \<open>The claims\<close>

subsection \<open>C1: the normalisation invariant\<close>

text \<open>
  C1, as stated, is about every history and every configuration, and names the decayed
  marginal of the empty history. \<^verbatim>\<open>buildMarginal\<close> of the advanced predictor has no prior and floors
  the divisor of an empty sum to 1, so on the empty history its values sum to 0. With the
  same floor in \<^verbatim>\<open>normalize\<close>, the ensemble of sportypredictor returns the all-zero map for
  the empty history when only the streak weight is positive.
\<close>

theorem normalization_counterexample:
  "sumValues OUTCOMES (buildMarginal []) = 0
   \<and> sumValues OUTCOMES_sp
        (blendedSlots (predictEnsemble W_default [] (buildModels [])
            (Some \<lparr>slot = 0, markov = 0, pattern = 0, streak = 1\<rparr>)) ! 0) = 0"
  by (simp add: buildMarginal_Nil predictEnsemble_zero sumValues_3 OUTCOMES_def OUTCOMES_sp_def fromEntries_def)

text \<open>
  C1, amended (over the reals, so every sum is exactly 1): for every history, each of these
  is a probability distribution, with no negative value and values summing to 1: the Markov
  rows of both predictors, the pattern rows, the slot and global posteriors of
  \<^verbatim>\<open>buildModels\<close> and their blend, the classifier output of a model of the trained shape, the
  three streak adjustments applied to a distribution, the ensemble output of the advanced
  predictor with no model or a model of the trained shape, and the prediction of index.cjs
  in every state reached by replaying observed outcomes of the alphabet; \<^verbatim>\<open>normalize\<close> and
  \<^verbatim>\<open>normalizeDict\<close> return values summing to 1 for every map whose values do not sum to 0. Two operations need a side
  condition: the decayed marginal \<^verbatim>\<open>buildMarginal\<close> of the advanced predictor is a
  distribution for every non-empty history of outcomes of the alphabet (on the empty history
  its values sum to 0), and the ensemble output of sportypredictor is a distribution
  whenever the weights in use are not negative and \<open>slot + markov + pattern > 0\<close>.
\<close>

theorem distributions_normalized:
  "(h \<noteq> [] \<and> (\<forall>e\<in>set h. outcome e \<in> set OUTCOMES) \<longrightarrow> is_dist OUTCOMES (buildMarginal h))
   \<and> (buildMarkov h a = Some row \<longrightarrow> is_dist OUTCOMES row)
   \<and> (wf_model (length x) m \<and> predictSoftmaxModel (Some m) x = Some d \<longrightarrow> is_dist OUTCOMES d)
   \<and> (is_dist OUTCOMES p \<longrightarrow>
        is_dist OUTCOMES (applyStreakBias_adv p hl) \<and> is_dist OUTCOMES (applyStreakBias_rb p hl))
   \<and> ((\<forall>m. model = Some m \<longrightarrow> wf_model 17 m) \<longrightarrow> is_dist OUTCOMES (ensemblePredict hourOf now h model))
   \<and> (s < GAMES_PER_ROUND \<longrightarrow>
        is_dist OUTCOMES_sp (slotPosteriors (buildModels hist) ! s)
        \<and> is_dist OUTCOMES_sp (slotWithGlobal (buildModels hist) s))
   \<and> is_dist OUTCOMES_sp (globalPosterior (buildModels hist))
   \<and> (s < GAMES_PER_ROUND \<and> (markovProbs (buildModels hist) ! s) prev = Some mrow \<longrightarrow>
        is_dist OUTCOMES_sp mrow)
   \<and> (s < GAMES_PER_ROUND \<and> patternProbs (buildModels hist) key = Some rows \<longrightarrow>
        is_dist OUTCOMES_sp (rows ! s))
   \<and> (is_dist OUTCOMES_sp q \<longrightarrow> is_dist OUTCOMES_sp (applyStreakAdjustment q hist s))
   \<and> (weights_ok (case weightsOpt of Some w \<Rightarrow> w | None \<Rightarrow> W) \<and> s < GAMES_PER_ROUND \<longrightarrow>
        is_dist OUTCOMES_sp (blendedSlots (predictEnsemble W hist (buildModels hist) weightsOpt) ! s))
   \<and> (sumValues OUTCOMES_sp obj \<noteq> 0 \<longrightarrow> sumValues OUTCOMES_sp (normalize_sp obj) = 1)
   \<and> (sumValues OUTCOMES obj \<noteq> 0 \<longrightarrow> sumValues OUTCOMES (normalizeDict obj) = 1)
   \<and> (list_all (\<lambda>k. k \<in> set OUTCOMES) obs \<longrightarrow>
        is_dist OUTCOMES (predictDistribution (fold updateModel obs init_rb) hs))"
proof -
  have mo: "models_ok (buildModels hist)" by (rule buildModels_ok)
  have 1: "s < GAMES_PER_ROUND \<longrightarrow>
        is_dist OUTCOMES_sp (slotPosteriors (buildModels hist) ! s)
        \<and> is_dist OUTCOMES_sp (slotWithGlobal (buildModels hist) s)"
    using mo slotWithGlobal_dist [OF mo, of s] by (simp add: models_ok_def dists_ok_def)
  have 2: "is_dist OUTCOMES_sp (globalPosterior (buildModels hist))"
    using mo by (simp add: models_ok_def)
  have 3: "s < GAMES_PER_ROUND \<and> (markovProbs (buildModels hist) ! s) prev = Some mrow \<longrightarrow>
        is_dist OUTCOMES_sp mrow"
    using mo unfolding models_ok_def by blast
  have 4: "s < GAMES_PER_ROUND \<and> patternProbs (buildModels hist) key = Some rows \<longrightarrow>
        is_dist OUTCOMES_sp (rows ! s)"
    using mo unfolding models_ok_def dists_ok_def by blast
  have 5: "list_all (\<lambda>k. k \<in> set OUTCOMES) obs \<longrightarrow>
        is_dist OUTCOMES (predictDistribution (fold updateModel obs init_rb) hs)"
    by (intro impI predictDistribution_dist replay_ok init_rb_ok)
  show ?thesis
    using buildMarginal_dist [of h] buildMarkov_dist [of h a row] predictSoftmaxModel_dist [of m x d]
      streak_adv_dist [of p hl] streak_rb_dist [of p hl] ensemblePredict_dist [of model hourOf now h]
      1 2 3 4 5 applyStreakAdjustment_dist [of q hist s]
      predictEnsemble_dist [of W weightsOpt s hist] normalize_sp_sum [of obj] normalizeDict_sum [of obj]
    by blast
qed

theorem distributions_normalized_witness:
  "is_dist OUTCOMES (buildMarginal [\<lparr>ts = 0, outcome = ''RED''\<rparr>, \<lparr>ts = 1, outcome = ''BLACK''\<rparr>])
   \<and> is_dist OUTCOMES (ensemblePredict (\<lambda>t. 0) 0 [\<lparr>ts = 0, outcome = ''RED''\<rparr>] None)
   \<and> is_dist OUTCOMES_sp (slotWithGlobal (buildModels [\<lparr>rts = 0, games = [''R'', ''B'', ''G'', ''R'', ''B'']\<rparr>]) 2)
   \<and> is_dist OUTCOMES_sp (blendedSlots (predictEnsemble W_default
          [\<lparr>rts = 0, games = [''R'', ''B'', ''G'', ''R'', ''B'']\<rparr>]
          (buildModels [\<lparr>rts = 0, games = [''R'', ''B'', ''G'', ''R'', ''B'']\<rparr>]) None) ! 2)
   \<and> is_dist OUTCOMES (applyStreakBias_adv (fromEntries OUTCOMES (1 / 3)) [''RED'', ''RED'', ''RED''])
   \<and> sumValues OUTCOMES (normalizeDict (fromEntries OUTCOMES ALPHA)) = 1"
proof -
  let ?h = "[\<lparr>ts = 0, outcome = ''RED''\<rparr>, \<lparr>ts = 1, outcome = ''BLACK''\<rparr>]"
  let ?hist = "[\<lparr>rts = 0, games = [''R'', ''B'', ''G'', ''R'', ''B'']\<rparr>]"
  have a: "?h \<noteq> [] \<and> (\<forall>e\<in>set ?h. outcome e \<in> set OUTCOMES)" by (simp add: OUTCOMES_def)
  have b: "\<forall>m. (None :: softmax_model option) = Some m \<longrightarrow> wf_model 17 m" by simp
  have c: "(2::nat) < GAMES_PER_ROUND" by (simp add: GAMES_PER_ROUND_def)
  have d: "weights_ok (case (None :: weights option) of Some w \<Rightarrow> w | None \<Rightarrow> W_default)"
    by (simp add: weights_ok_def W_default_def)
  have e: "is_dist OUTCOMES (fromEntries OUTCOMES (1 / 3))" by (rule is_dist_uniform)
  have f: "sumValues OUTCOMES (fromEntries OUTCOMES ALPHA) \<noteq> 0"
    by (simp add: sumValues_OUTCOMES fromEntries_def mem_adv ALPHA_def)
  have w1: "is_dist OUTCOMES (buildMarginal ?h)"
    using distributions_normalized [where h = ?h, THEN conjunct1] a by blast
  have w2: "is_dist OUTCOMES (ensemblePredict (\<lambda>t. 0) 0 [\<lparr>ts = 0, outcome = ''RED''\<rparr>] None)"
    using distributions_normalized [where h = "[\<lparr>ts = 0, outcome = ''RED''\<rparr>]" and model = None
          and hourOf = "\<lambda>t. 0" and now = 0, THEN conjunct2, THEN conjunct2, THEN conjunct2, THEN conjunct2, THEN conjunct1] b by blast
  have w3: "is_dist OUTCOMES_sp (slotWithGlobal (buildModels ?hist) 2)
      \<and> is_dist OUTCOMES_sp (blendedSlots (predictEnsemble W_default ?hist (buildModels ?hist) None) ! 2)"
    using distributions_normalized [where hist = ?hist and s = 2, THEN conjunct2, THEN conjunct2, THEN conjunct2, THEN conjunct2, THEN conjunct2, THEN conjunct1]
      distributions_normalized [where hist = ?hist and s = 2 and W = W_default and weightsOpt = None, THEN conjunct2, THEN conjunct2, THEN conjunct2, THEN conjunct2, THEN conjunct2, THEN conjunct2, THEN conjunct2, THEN conjunct2, THEN conjunct2, THEN conjunct2, THEN conjunct1] c d
    by blast
  have w4: "is_dist OUTCOMES (applyStreakBias_adv (fromEntries OUTCOMES (1 / 3)) [''RED'', ''RED'', ''RED''])"
    using distributions_normalized [where p = "fromEntries OUTCOMES (1 / 3)" and hl = "[''RED'', ''RED'', ''RED'']", THEN conjunct2, THEN conjunct2, THEN conjunct2, THEN conjunct1] e
    by blast
  have w5: "sumValues OUTCOMES (normalizeDict (fromEntries OUTCOMES ALPHA)) = 1"
    using distributions_normalized [where obj = "fromEntries OUTCOMES ALPHA", THEN conjunct2, THEN conjunct2, THEN conjunct2, THEN conjunct2, THEN conjunct2, THEN conjunct2, THEN conjunct2, THEN conjunct2, THEN conjunct2, THEN conjunct2, THEN conjunct2, THEN conjunct2, THEN conjunct1] f by blast
  show ?thesis using w1 w2 w3 w4 w5 by blast
qed

subsection \<open>C2: the ensemble on the empty history\<close>

text \<open>
  C2: applied to the empty history, the ensemble prediction returns the uniform
  distribution over the alphabet, a valid normalised distribution, for every slot:
  \<^verbatim>\<open>ensemblePredict([])\<close> of the advanced predictor (no model, so the classifier contributes
  its uniform fallback), and \<^verbatim>\<open>predictEnsemble\<close> of sportypredictor with the default weights
  on the models built from the empty history, where each of the five slots is uniform and
  the pick is made (the first outcome). With a model of the trained shape passed in, the
  output of the advanced predictor on the empty history is still a distribution.
\<close>

theorem ensemble_empty_history_uniform:
  "ensemblePredict hourOf now [] None = fromEntries OUTCOMES (1 / 3)
   \<and> is_dist OUTCOMES (fromEntries OUTCOMES (1 / 3))
   \<and> blendedSlots (predictEnsemble W_default [] (buildModels []) None)
       = replicate GAMES_PER_ROUND (fromEntries OUTCOMES_sp (1 / 3))
   \<and> picks (predictEnsemble W_default [] (buildModels []) None)
       = replicate GAMES_PER_ROUND (''R'', fromEntries OUTCOMES_sp (1 / 3))
   \<and> is_dist OUTCOMES_sp (fromEntries OUTCOMES_sp (1 / 3))
   \<and> (wf_model 17 m \<longrightarrow> is_dist OUTCOMES (ensemblePredict hourOf now [] (Some m)))"
proof -
  have b: "blendedSlots (predictEnsemble W_default [] (buildModels []) None)
       = replicate GAMES_PER_ROUND (fromEntries OUTCOMES_sp (1 / 3))"
    by (rule predictEnsemble_Nil)
  have "picks (predictEnsemble W_default [] (buildModels []) None)
      = map (\<lambda>d. (pickBest d, d)) (blendedSlots (predictEnsemble W_default [] (buildModels []) None))"
    by (simp add: predictEnsemble_def Let_def)
  then have p: "picks (predictEnsemble W_default [] (buildModels []) None)
       = replicate GAMES_PER_ROUND (''R'', fromEntries OUTCOMES_sp (1 / 3))"
    by (simp add: b pickBest_uniform)
  have e: "wf_model 17 m \<longrightarrow> is_dist OUTCOMES (ensemblePredict hourOf now [] (Some m))"
    using ensemblePredict_dist [of "Some m" hourOf now "[]"] by simp
  show ?thesis
    using ensemblePredict_Nil [of hourOf now] is_dist_uniform b p e by blast
qed

theorem ensemble_empty_history_uniform_witness:
  "ensemblePredict (\<lambda>t. 0) 0 [] None ''GREEN'' = 1 / 3
   \<and> (blendedSlots (predictEnsemble W_default [] (buildModels []) None) ! 4) ''B'' = 1 / 3
   \<and> fst (picks (predictEnsemble W_default [] (buildModels []) None) ! 4) = ''R''
   \<and> wf_model 17 \<lparr>mW = replicate 3 (replicate 17 0), mb = replicate 3 0\<rparr>
   \<and> is_dist OUTCOMES (ensemblePredict (\<lambda>t. 0) 0 []
        (Some \<lparr>mW = replicate 3 (replicate 17 0), mb = replicate 3 0\<rparr>))"
proof -
  have w: "wf_model 17 \<lparr>mW = replicate 3 (replicate 17 0), mb = replicate 3 0\<rparr>"
    by (simp add: wf_model_def K_adv_def OUTCOMES_def list_all_iff)
  note t = ensemble_empty_history_uniform [of "\<lambda>t. 0" 0
      "\<lparr>mW = replicate 3 (replicate 17 0), mb = replicate 3 0\<rparr>"]
  have 1: "ensemblePredict (\<lambda>t. 0) 0 [] None ''GREEN'' = 1 / 3"
    using t by (simp add: fromEntries_def mem_adv)
  have 2: "(blendedSlots (predictEnsemble W_default [] (buildModels []) None) ! 4) ''B'' = 1 / 3"
    using t by (simp add: fromEntries_def mem_sp GAMES_PER_ROUND_def)
  have 3: "fst (picks (predictEnsemble W_default [] (buildModels []) None) ! 4) = ''R''"
    using t by (simp add: GAMES_PER_ROUND_def)
  show ?thesis using t w 1 2 3 by blast
qed

subsection \<open>C3: the walk-forward evaluation does not look ahead\<close>

text \<open>
  C3: for every history and every round \<open>i\<close>, the prediction the walk-forward evaluator
  makes for round \<open>i\<close> depends only on the entries before \<open>i\<close> and on the random source:
  two histories that agree on the indices below \<open>i\<close> (and both hold a round \<open>i\<close>) give
  the same prediction for round \<open>i\<close>, whatever they hold from \<open>i\<close> on. In the advanced
  predictor the prediction is made for every round from the minimum training size on that
  has at least 10 training rows (\<open>i \<ge> 20\<close>), once the rounds scored before it have
  outcomes of the alphabet; in sportypredictor it is made for every round from 1 on and is
  the ensemble prediction on the prefix.
\<close>

theorem walk_forward_no_leakage:
  "(i < length h1 \<and> i < length h2 \<and> take i h1 = take i h2 \<longrightarrow>
      predictionFor_adv hourOf now h1 mt r i = predictionFor_adv hourOf now h2 mt r i)
   \<and> (minTrainOf mt \<le> i \<and> 20 \<le> i \<and> i < length h1
        \<and> (\<forall>j. minTrainOf mt \<le> j \<and> j < i \<longrightarrow> outcome (h1 ! j) \<in> set OUTCOMES) \<longrightarrow>
      predictionFor_adv hourOf now h1 mt r i \<noteq> None)
   \<and> (k < length g1 \<and> k < length g2 \<and> take k g1 = take k g2 \<longrightarrow>
      predictionFor_sp W g1 wo k = predictionFor_sp W g2 wo k)
   \<and> (1 \<le> k \<and> k < length g1 \<longrightarrow>
      predictionFor_sp W g1 wo k
        = Some (picks (predictEnsemble W (take k g1) (buildModels (take k g1)) wo)))"
  using predictionFor_adv_prefix [of i h1 h2 hourOf now mt r]
    predictionFor_adv_made [of mt i h1 hourOf now r]
    predictionFor_sp_prefix [of k g1 g2 W wo]
    predictionFor_sp_eq [of W g1 wo k]
  by (simp add: pred_sp_def)

theorem walk_forward_no_leakage_witness:
  "predictionFor_adv (\<lambda>t. 0) 0 (replicate 22 \<lparr>ts = 0, outcome = ''RED''\<rparr>) 0 (\<lambda>n. 1 / 2) 21
     = predictionFor_adv (\<lambda>t. 0) 0
         (replicate 21 \<lparr>ts = 0, outcome = ''RED''\<rparr> @ [\<lparr>ts = 9, outcome = ''GREEN''\<rparr>, \<lparr>ts = 10, outcome = ''BLACK''\<rparr>])
         0 (\<lambda>n. 1 / 2) 21
   \<and> predictionFor_adv (\<lambda>t. 0) 0 (replicate 22 \<lparr>ts = 0, outcome = ''RED''\<rparr>) 0 (\<lambda>n. 1 / 2) 21 \<noteq> None
   \<and> predictionFor_sp W_default
        [\<lparr>rts = 0, games = [''R'', ''B'', ''G'', ''R'', ''B'']\<rparr>, \<lparr>rts = 1, games = [''B'', ''B'', ''G'', ''R'', ''R'']\<rparr>]
        None 1
     = predictionFor_sp W_default
        [\<lparr>rts = 0, games = [''R'', ''B'', ''G'', ''R'', ''B'']\<rparr>, \<lparr>rts = 5, games = [''G'', ''G'', ''G'', ''G'', ''G'']\<rparr>,
         \<lparr>rts = 6, games = [''R'', ''R'', ''R'', ''R'', ''R'']\<rparr>]
        None 1
   \<and> predictionFor_sp W_default
        [\<lparr>rts = 0, games = [''R'', ''B'', ''G'', ''R'', ''B'']\<rparr>, \<lparr>rts = 1, games = [''B'', ''B'', ''G'', ''R'', ''R'']\<rparr>]
        None 1
     = Some (picks (predictEnsemble W_default [\<lparr>rts = 0, games = [''R'', ''B'', ''G'', ''R'', ''B'']\<rparr>]
               (buildModels [\<lparr>rts = 0, games = [''R'', ''B'', ''G'', ''R'', ''B'']\<rparr>]) None))"
proof -
  let ?e = "\<lparr>ts = 0, outcome = ''RED''\<rparr>"
  let ?h1 = "replicate 22 ?e"
  let ?h2 = "replicate 21 ?e @ [\<lparr>ts = 9, outcome = ''GREEN''\<rparr>, \<lparr>ts = 10, outcome = ''BLACK''\<rparr>]"
  let ?r0 = "\<lparr>rts = 0, games = [''R'', ''B'', ''G'', ''R'', ''B'']\<rparr>"
  let ?g1 = "[?r0, \<lparr>rts = 1, games = [''B'', ''B'', ''G'', ''R'', ''R'']\<rparr>]"
  let ?g2 = "[?r0, \<lparr>rts = 5, games = [''G'', ''G'', ''G'', ''G'', ''G'']\<rparr>,
         \<lparr>rts = 6, games = [''R'', ''R'', ''R'', ''R'', ''R'']\<rparr>]"
  note t = walk_forward_no_leakage [of 21 ?h1 ?h2 "\<lambda>t. 0" 0 0 "\<lambda>n. 1 / 2" 1 ?g1 ?g2 W_default None]
  have a: "(21::nat) < length ?h1 \<and> 21 < length ?h2 \<and> take 21 ?h1 = take 21 ?h2" by simp
  have b: "minTrainOf 0 \<le> 21 \<and> (20::nat) \<le> 21 \<and> 21 < length ?h1
      \<and> (\<forall>j. minTrainOf 0 \<le> j \<and> j < 21 \<longrightarrow> outcome (?h1 ! j) \<in> set OUTCOMES)"
    by (simp add: minTrainOf_def N_WINDOW_def mem_adv)
  have c: "(1::nat) < length ?g1 \<and> 1 < length ?g2 \<and> take 1 ?g1 = take 1 ?g2" by simp
  have d: "(1::nat) \<le> 1 \<and> 1 < length ?g1" by simp
  have e: "take 1 ?g1 = [?r0]" by simp
  have 1: "predictionFor_adv (\<lambda>t. 0) 0 ?h1 0 (\<lambda>n. 1 / 2) 21 = predictionFor_adv (\<lambda>t. 0) 0 ?h2 0 (\<lambda>n. 1 / 2) 21"
    using t [THEN conjunct1] a by blast
  have 2: "predictionFor_adv (\<lambda>t. 0) 0 ?h1 0 (\<lambda>n. 1 / 2) 21 \<noteq> None"
    using t [THEN conjunct2, THEN conjunct1] b by blast
  have 3: "predictionFor_sp W_default ?g1 None 1 = predictionFor_sp W_default ?g2 None 1"
    using t [THEN conjunct2, THEN conjunct2, THEN conjunct1] c by blast
  have 4: "predictionFor_sp W_default ?g1 None 1
      = Some (picks (predictEnsemble W_default [?r0] (buildModels [?r0]) None))"
    using t [THEN conjunct2, THEN conjunct2, THEN conjunct2] d unfolding e by blast
  show ?thesis using 1 2 3 4 by blast
qed

subsection \<open>C4: the streak bound\<close>

text \<open>
  C4: for every input distribution and every history whose last \<open>STREAK_WINDOW\<close> outcomes
  (for the slot) all equal a member \<open>v\<close> of the alphabet, each of the three streak
  adjustments (\<^verbatim>\<open>applyStreakBias\<close> of the advanced predictor and of index.cjs,
  \<^verbatim>\<open>applyStreakAdjustment\<close> of sportypredictor) returns a probability of \<open>v\<close> that is at most
  its probability before, and the mass moved away from \<open>v\<close> is at most the streak bonus.
\<close>

theorem streak_bound:
  "(is_dist OUTCOMES p \<and> STREAK_WINDOW \<le> length h
      \<and> (\<forall>x\<in>set (slice_last STREAK_WINDOW h). x = v) \<and> v \<in> set OUTCOMES
    \<longrightarrow> applyStreakBias_adv p h v \<le> p v \<and> p v - applyStreakBias_adv p h v \<le> STREAK_BONUS_adv
      \<and> applyStreakBias_rb p h v \<le> p v \<and> p v - applyStreakBias_rb p h v \<le> STREAK_BONUS_rb)
   \<and> (is_dist OUTCOMES_sp q \<and> STREAK_WINDOW \<le> length hist
      \<and> (\<forall>r\<in>set (slice_last STREAK_WINDOW hist). games_at r s = Some w) \<and> w \<in> set OUTCOMES_sp
    \<longrightarrow> applyStreakAdjustment q hist s w \<le> q w
      \<and> q w - applyStreakAdjustment q hist s w \<le> STREAK_BONUS_sp)"
  using streak_adv_bound [of p h v] streak_rb_bound [of p h v] streak_sp_bound [of q hist s w]
  by blast

theorem streak_bound_witness:
  "is_dist OUTCOMES (fromEntries OUTCOMES (1 / 3))
   \<and> STREAK_WINDOW \<le> length [''BLACK'', ''RED'', ''RED'', ''RED'']
   \<and> slice_last STREAK_WINDOW [''BLACK'', ''RED'', ''RED'', ''RED''] = [''RED'', ''RED'', ''RED'']
   \<and> ''RED'' \<in> set OUTCOMES
   \<and> applyStreakBias_adv (fromEntries OUTCOMES (1 / 3)) [''BLACK'', ''RED'', ''RED'', ''RED''] ''RED'' \<le> 1 / 3
   \<and> applyStreakBias_rb (fromEntries OUTCOMES (1 / 3)) [''BLACK'', ''RED'', ''RED'', ''RED''] ''RED'' \<le> 1 / 3
   \<and> is_dist OUTCOMES_sp (fromEntries OUTCOMES_sp (1 / 3))
   \<and> STREAK_WINDOW \<le> length (replicate 3 \<lparr>rts = 0, games = [''G'', ''R'', ''B'', ''B'', ''R'']\<rparr>)
   \<and> map (\<lambda>r. games_at r 1)
          (slice_last STREAK_WINDOW (replicate 3 \<lparr>rts = 0, games = [''G'', ''R'', ''B'', ''B'', ''R'']\<rparr>))
       = [Some ''R'', Some ''R'', Some ''R'']
   \<and> ''R'' \<in> set OUTCOMES_sp
   \<and> applyStreakAdjustment (fromEntries OUTCOMES_sp (1 / 3))
        (replicate 3 \<lparr>rts = 0, games = [''G'', ''R'', ''B'', ''B'', ''R'']\<rparr>) 1 ''R'' \<le> 1 / 3"
proof -
  have a: "is_dist OUTCOMES (fromEntries OUTCOMES (1 / 3))"
    by (simp add: is_dist_def fromEntries_def OUTCOMES_def sumValues_3)
  have b: "STREAK_WINDOW \<le> length [''BLACK'', ''RED'', ''RED'', ''RED'']"
    by (simp add: STREAK_WINDOW_def)
  have c': "slice_last STREAK_WINDOW [''BLACK'', ''RED'', ''RED'', ''RED''] = [''RED'', ''RED'', ''RED'']"
    by (simp add: STREAK_WINDOW_def slice_last_def)
  then have c: "\<forall>x\<in>set (slice_last STREAK_WINDOW [''BLACK'', ''RED'', ''RED'', ''RED'']). x = ''RED''"
    by simp
  have d: "''RED'' \<in> set OUTCOMES" by (simp add: OUTCOMES_def)
  have e: "is_dist OUTCOMES_sp (fromEntries OUTCOMES_sp (1 / 3))"
    by (simp add: is_dist_def fromEntries_def OUTCOMES_sp_def sumValues_3)
  have f: "STREAK_WINDOW \<le> length (replicate 3 \<lparr>rts = 0, games = [''G'', ''R'', ''B'', ''B'', ''R'']\<rparr>)"
    by (simp add: STREAK_WINDOW_def)
  have g': "map (\<lambda>r. games_at r 1)
          (slice_last STREAK_WINDOW (replicate 3 \<lparr>rts = 0, games = [''G'', ''R'', ''B'', ''B'', ''R'']\<rparr>))
       = [Some ''R'', Some ''R'', Some ''R'']"
    by (simp add: STREAK_WINDOW_def slice_last_def games_at_def numeral_3_eq_3)
  have g: "\<forall>r\<in>set (slice_last STREAK_WINDOW (replicate 3 \<lparr>rts = 0, games = [''G'', ''R'', ''B'', ''B'', ''R'']\<rparr>)).
         games_at r 1 = Some ''R''"
    by (simp add: STREAK_WINDOW_def slice_last_def games_at_def)
  have i: "''R'' \<in> set OUTCOMES_sp" by (simp add: OUTCOMES_sp_def)
  have p: "fromEntries OUTCOMES (1 / 3) ''RED'' = 1 / 3" "fromEntries OUTCOMES_sp (1 / 3) ''R'' = 1 / 3"
    by (simp_all add: fromEntries_def OUTCOMES_def OUTCOMES_sp_def)
  have "applyStreakBias_adv (fromEntries OUTCOMES (1 / 3)) [''BLACK'', ''RED'', ''RED'', ''RED''] ''RED'' \<le> 1 / 3
   \<and> applyStreakBias_rb (fromEntries OUTCOMES (1 / 3)) [''BLACK'', ''RED'', ''RED'', ''RED''] ''RED'' \<le> 1 / 3
   \<and> applyStreakAdjustment (fromEntries OUTCOMES_sp (1 / 3))
        (replicate 3 \<lparr>rts = 0, games = [''G'', ''R'', ''B'', ''B'', ''R'']\<rparr>) 1 ''R'' \<le> 1 / 3"
    using streak_bound [of "fromEntries OUTCOMES (1 / 3)" "[''BLACK'', ''RED'', ''RED'', ''RED'']" "''RED''"
        "fromEntries OUTCOMES_sp (1 / 3)" "replicate 3 \<lparr>rts = 0, games = [''G'', ''R'', ''B'', ''B'', ''R'']\<rparr>"
        1 "''R''"] a b c d e f g i
    unfolding p by blast
  then show ?thesis using a b c' d e f g' i by blast
qed

subsection \<open>C5: breaking ties of the argmax\<close>

text \<open>
  C5, as stated, covers the pick of \<^verbatim>\<open>predictEnsemble\<close> in sportypredictor. That file has no
  random source: the pick starts at the first outcome and moves to a later one only when
  strictly larger, so with R and B tied at \<open>1/2\<close> the pick is R, always, and B is never
  selected.
\<close>

theorem pickBest_tie_counterexample:
  "fromEntries [''R'', ''B''] (1 / 2) ''R'' = fromEntries [''R'', ''B''] (1 / 2) ''B''
   \<and> fromEntries [''R'', ''B''] (1 / 2) ''G'' = 0
   \<and> pickBest (fromEntries [''R'', ''B''] (1 / 2)) = ''R''
   \<and> pickBest (fromEntries [''R'', ''B''] (1 / 2)) \<noteq> ''B''"
  by (simp add: pickBest_order fromEntries_def)

text \<open>
  C5, amended: in the advanced predictor (\<^verbatim>\<open>argmaxWithRandomTie\<close>), for every distribution
  with distinct keys in which \<open>n \<ge> 2\<close> outcomes lie within \<open>1e-9\<close> of the maximal
  probability (the candidates are exactly those keys, in key order), the pick is the
  candidate at index \<open>floor(random * n)\<close>: the \<open>j\<close>-th tied outcome is selected exactly when
  the random number lies in \<open>[j/n, (j+1)/n)\<close>, an interval of width \<open>1/n\<close> for each, hence
  with equal probability under a uniform random source and not by key order. In
  sportypredictor (\<^verbatim>\<open>predictEnsemble\<close>) the pick is deterministic: the first outcome in the
  order R, B, G that attains the maximum.
\<close>

theorem argmax_tie_break:
  "(distinct (map fst entries) \<and> 2 \<le> length (candidatesOf entries) \<and> 0 \<le> r 0 \<and> r 0 < 1
      \<and> j < length (candidatesOf entries)
    \<longrightarrow> (fst (argmaxWithRandomTie entries r) = Some (candidatesOf entries ! j)
          \<longleftrightarrow> real j / real (length (candidatesOf entries)) \<le> r 0
              \<and> r 0 < (real j + 1) / real (length (candidatesOf entries))))
   \<and> (entries \<noteq> [] \<longrightarrow>
        candidatesOf entries = map fst (filter (\<lambda>(k, v). \<bar>v - Max (snd ` set entries)\<bar> \<le> tol) entries))
   \<and> pickBest d = (if d ''G'' > max (d ''R'') (d ''B'') then ''G''
                   else if d ''B'' > d ''R'' then ''B'' else ''R'')"
  using argmax_tie_interval [of entries r j] candidatesOf_Max [of entries] pickBest_order [of d]
  by blast

theorem argmax_tie_break_witness:
  "candidatesOf [(''A'', 1 / 2), (''B'', 1 / 2), (''C'', 0)] = [''A'', ''B'']
   \<and> fst (argmaxWithRandomTie [(''A'', 1 / 2), (''B'', 1 / 2), (''C'', 0)] (\<lambda>n. 3 / 4)) = Some ''B''
   \<and> fst (argmaxWithRandomTie [(''A'', 1 / 2), (''B'', 1 / 2), (''C'', 0)] (\<lambda>n. 1 / 4)) = Some ''A''"
proof -
  let ?e = "[(''A'', 1 / 2), (''B'', 1 / 2), (''C'', 0 :: real)]"
  have c: "candidatesOf ?e = [''A'', ''B'']" by (rule cands_example)
  have d: "distinct (map fst ?e)" by simp
  have "fst (argmaxWithRandomTie ?e (\<lambda>n. 3 / 4)) = Some (candidatesOf ?e ! 1)"
    using argmax_tie_break [of ?e "\<lambda>n. 3 / 4" 1, THEN conjunct1] d by (simp add: c)
  moreover have "fst (argmaxWithRandomTie ?e (\<lambda>n. 1 / 4)) = Some (candidatesOf ?e ! 0)"
    using argmax_tie_break [of ?e "\<lambda>n. 1 / 4" 0, THEN conjunct1] d by (simp add: c)
  ultimately show ?thesis by (simp add: c)
qed

subsection \<open>C6: a Markov row without observed mass is uniform\<close>

text \<open>
  C6: for every history and every previous outcome \<open>a\<close> of the alphabet that is never
  followed by an outcome of the alphabet (for sportypredictor: in slot \<open>s\<close>), so that its
  transition row accumulated no observed mass, the row of the Markov model is the uniform
  distribution over the alphabet. For the advanced predictor this is also stated as the
  source tests it: a row whose counts sum to 0 is replaced by the uniform distribution.
\<close>

theorem markov_unobserved_row_uniform:
  "(a \<in> set OUTCOMES
      \<and> (\<forall>i. 1 \<le> i \<and> i < length h \<longrightarrow> \<not> (outcome (h ! (i - 1)) = a \<and> outcome (h ! i) \<in> set OUTCOMES))
    \<longrightarrow> buildMarkov h a = Some (fromEntries OUTCOMES (1 / 3)))
   \<and> (a \<in> set OUTCOMES \<and> sumValues OUTCOMES (markovCounts_adv h a) = 0
    \<longrightarrow> buildMarkov h a = Some (fromEntries OUTCOMES (1 / 3)))
   \<and> (s < GAMES_PER_ROUND \<and> p \<in> set OUTCOMES_sp
      \<and> (\<forall>i. 1 \<le> i \<and> i < length hist \<longrightarrow>
            \<not> (games_at (hist ! (i - 1)) s = Some p \<and> includes_sp (games_at (hist ! i) s)))
    \<longrightarrow> (markovProbs (buildModels hist) ! s) p = Some (fromEntries OUTCOMES_sp (1 / 3)))"
  using buildMarkov_untouched [of a h] buildMarkov_zero_mass [of a h] markovProbs_untouched [of s p hist]
  by blast

theorem markov_unobserved_row_uniform_witness:
  "buildMarkov [\<lparr>ts = 0, outcome = ''RED''\<rparr>, \<lparr>ts = 1, outcome = ''BLACK''\<rparr>] ''GREEN''
     = Some (fromEntries OUTCOMES (1 / 3))
   \<and> (markovProbs (buildModels [\<lparr>rts = 0, games = [''R'', ''B'', ''G'', ''R'', ''B'']\<rparr>,
                                \<lparr>rts = 1, games = [''B'', ''B'', ''G'', ''R'', ''R'']\<rparr>]) ! 1) ''R''
     = Some (fromEntries OUTCOMES_sp (1 / 3))"
proof -
  let ?h = "[\<lparr>ts = 0, outcome = ''RED''\<rparr>, \<lparr>ts = 1, outcome = ''BLACK''\<rparr>]"
  let ?hist = "[\<lparr>rts = 0, games = [''R'', ''B'', ''G'', ''R'', ''B'']\<rparr>,
                \<lparr>rts = 1, games = [''B'', ''B'', ''G'', ''R'', ''R'']\<rparr>]"
  have a: "''GREEN'' \<in> set OUTCOMES" by (simp add: OUTCOMES_def)
  have b: "\<forall>i. 1 \<le> i \<and> i < length ?h \<longrightarrow>
      \<not> (outcome (?h ! (i - 1)) = ''GREEN'' \<and> outcome (?h ! i) \<in> set OUTCOMES)"
    by (auto simp: less_Suc_eq)
  have c: "(1::nat) < GAMES_PER_ROUND" "''R'' \<in> set OUTCOMES_sp"
    by (simp_all add: GAMES_PER_ROUND_def OUTCOMES_sp_def)
  have d: "\<forall>i. 1 \<le> i \<and> i < length ?hist \<longrightarrow>
      \<not> (games_at (?hist ! (i - 1)) 1 = Some ''R'' \<and> includes_sp (games_at (?hist ! i) 1))"
    by (auto simp: less_Suc_eq games_at_def)
  show ?thesis
    using markov_unobserved_row_uniform [of "''GREEN''" ?h 1 "''R''" ?hist] a b c d by blast
qed

subsection \<open>C7: the decayed-frequency counter on the empty history\<close>

text \<open>
  C7, as stated, covers \<^verbatim>\<open>buildMarginal\<close> of the advanced predictor. Its buckets start at
  \<open>0.0\<close>, not at a prior, and the divisor of the empty sum is floored to 1: on the empty
  history every outcome gets 0, which is no probability distribution.
\<close>

theorem buildMarginal_empty_counterexample:
  "buildMarginal [] ''RED'' = 0 \<and> buildMarginal [] ''BLACK'' = 0 \<and> buildMarginal [] ''GREEN'' = 0
   \<and> \<not> is_dist OUTCOMES (buildMarginal [])"
  by (simp add: buildMarginal_Nil not_dist_zero) (simp add: fromEntries_def)

text \<open>
  C7, amended: where every bucket starts at the Dirichlet prior \<open>ALPHA\<close> (the slot and
  global counters of \<^verbatim>\<open>buildModels\<close> in sportypredictor, the marginal counts of index.cjs),
  the decayed-frequency counter of the empty history is the uniform distribution, \<open>1/3\<close> for
  every outcome of the alphabet. \<^verbatim>\<open>buildMarginal\<close> of the advanced predictor has no prior: on
  the empty history it returns 0 for every outcome.
\<close>

theorem empty_history_counter:
  "slotPosteriors (buildModels []) = replicate GAMES_PER_ROUND (fromEntries OUTCOMES_sp (1 / 3))
   \<and> globalPosterior (buildModels []) = fromEntries OUTCOMES_sp (1 / 3)
   \<and> is_dist OUTCOMES_sp (fromEntries OUTCOMES_sp (1 / 3))
   \<and> normalizeDict (marg init_rb) = fromEntries OUTCOMES (1 / 3)
   \<and> is_dist OUTCOMES (fromEntries OUTCOMES (1 / 3))
   \<and> buildMarginal [] = fromEntries OUTCOMES 0"
  by (simp add: buildModels_Nil normalizeDict_init is_dist_uniform buildMarginal_Nil)

theorem empty_history_counter_witness:
  "slotPosteriors (buildModels []) ! 4 = fromEntries OUTCOMES_sp (1 / 3)
   \<and> globalPosterior (buildModels []) ''G'' = 1 / 3
   \<and> normalizeDict (marg init_rb) ''BLACK'' = 1 / 3
   \<and> buildMarginal [] ''GREEN'' = 0"
  using empty_history_counter
  by (simp add: GAMES_PER_ROUND_def fromEntries_def OUTCOMES_def OUTCOMES_sp_def)

subsection \<open>C8: rejected input never reaches the history\<close>

text \<open>
  C8: for every raw round-input string, \<^verbatim>\<open>parseRoundInput\<close> either returns exactly
  \<open>GAMES_PER_ROUND\<close> tokens, all members of the outcome alphabet and equal to the
  upper-cased pieces of the input (no piece is replaced by an alphabet member), or raises an
  input error; when it raises, the \<^verbatim>\<open>add\<close> command reports the error and leaves the
  history as it was, and when it returns, the command appends exactly the returned tokens.
\<close>

theorem parseRoundInput_accepts_or_rejects:
  "(case parseRoundInput raw of
      Inr tokens \<Rightarrow> length tokens = GAMES_PER_ROUND \<and> list_all (\<lambda>t. t \<in> set OUTCOMES_sp) tokens
         \<and> tokens = map toUpperCase (split_ws [] False (trim (replace_commas raw)))
    | Inl e \<Rightarrow> \<exists>msg. e = InputError msg)
   \<and> (parseRoundInput (join '' '' rest) = Inl e \<longrightarrow> cmd_add now rest history = (history, Some e))
   \<and> (parseRoundInput (join '' '' rest) = Inr tokens \<longrightarrow>
        cmd_add now rest history = (history @ [\<lparr>rts = now, games = tokens\<rparr>], None))"
  using parseRoundInput_cases [of raw] cmd_add_Inl [of rest e now history]
    cmd_add_Inr [of rest tokens now history]
  by blast

theorem parseRoundInput_accepts_or_rejects_witness:
  "parseRoundInput ''r,b G  r b'' = Inr [''R'', ''B'', ''G'', ''R'', ''B'']
   \<and> length [''R'', ''B'', ''G'', ''R'', ''B''] = GAMES_PER_ROUND
   \<and> parseRoundInput (join '' '' [''R,B,X'', ''R,B'']) = Inl (InputError ''Outcomes must be one of R,B,G'')
   \<and> cmd_add 7 [''R,B,X'', ''R,B''] [\<lparr>rts = 1, games = [''R'', ''R'', ''R'', ''R'', ''R'']\<rparr>]
       = ([\<lparr>rts = 1, games = [''R'', ''R'', ''R'', ''R'', ''R'']\<rparr>],
          Some (InputError ''Outcomes must be one of R,B,G''))
   \<and> cmd_add 7 [''R'', ''B''] [] = ([], Some (InputError ''Need exactly 5 outcomes (R/B/G).''))"
proof -
  have a: "cmd_add 7 [''R,B,X'', ''R,B''] [\<lparr>rts = 1, games = [''R'', ''R'', ''R'', ''R'', ''R'']\<rparr>]
       = ([\<lparr>rts = 1, games = [''R'', ''R'', ''R'', ''R'', ''R'']\<rparr>],
          Some (InputError ''Outcomes must be one of R,B,G''))"
    using parseRoundInput_accepts_or_rejects [of "''r,b G  r b''" "[''R,B,X'', ''R,B'']"
      "InputError ''Outcomes must be one of R,B,G''" 7
      "[\<lparr>rts = 1, games = [''R'', ''R'', ''R'', ''R'', ''R'']\<rparr>]" "[]"] parse_example_bad
    by blast
  have b: "cmd_add 7 [''R'', ''B''] [] = ([], Some (InputError ''Need exactly 5 outcomes (R/B/G).''))"
    using parseRoundInput_accepts_or_rejects [of "[]" "[''R'', ''B'']"
      "InputError ''Need exactly 5 outcomes (R/B/G).''" 7 "[]" "[]"] parse_example_short
    by blast
  show ?thesis
    using a b parse_example_ok parse_example_bad by (simp add: GAMES_PER_ROUND_def)
qed

subsection \<open>C9: duplicate suppression of recordOutcome\<close>

text \<open>
  C9: for an observed outcome (the polling loop calls \<^verbatim>\<open>recordOutcome(observed)\<close> only behind
  \<^verbatim>\<open>if (!observed) continue\<close>, so the argument is a non-empty string), \<^verbatim>\<open>recordOutcome\<close> leaves
  the persisted history unchanged whenever the outcome equals the most recent stored outcome
  and that entry's timestamp is less than 2000 ms before the clock reading of the test. In
  every other case (an empty history, a different outcome, a repeat 2000 ms or more later) it
  appends the entry \<open>{ts, outcome}\<close>, stamped with the clock reading of the push, to the
  history.
\<close>

theorem recordOutcome_drops_or_appends:
  assumes "oc \<noteq> ''''"
  shows "(history \<noteq> [] \<and> outcome (last history) = oc \<and> now1 - ts (last history) < 2000
            \<longrightarrow> recordOutcome now1 now2 (Some oc) history = history)
       \<and> (\<not> (history \<noteq> [] \<and> outcome (last history) = oc \<and> now1 - ts (last history) < 2000)
            \<longrightarrow> recordOutcome now1 now2 (Some oc) history = history @ [\<lparr>ts = now2, outcome = oc\<rparr>])"
  using assms by (auto simp: recordOutcome_def Let_def)

theorem recordOutcome_drops_or_appends_witness:
  "recordOutcome 1500 1501 (Some ''RED'') [\<lparr>ts = 0, outcome = ''RED''\<rparr>] = [\<lparr>ts = 0, outcome = ''RED''\<rparr>]
   \<and> recordOutcome 2000 2001 (Some ''RED'') [\<lparr>ts = 0, outcome = ''RED''\<rparr>]
       = [\<lparr>ts = 0, outcome = ''RED''\<rparr>, \<lparr>ts = 2001, outcome = ''RED''\<rparr>]
   \<and> recordOutcome 100 101 (Some ''BLACK'') [\<lparr>ts = 0, outcome = ''RED''\<rparr>]
       = [\<lparr>ts = 0, outcome = ''RED''\<rparr>, \<lparr>ts = 101, outcome = ''BLACK''\<rparr>]
   \<and> recordOutcome 100 101 (Some ''GREEN'') [] = [\<lparr>ts = 101, outcome = ''GREEN''\<rparr>]"
  using recordOutcome_drops_or_appends [of "''RED''" "[\<lparr>ts = 0, outcome = ''RED''\<rparr>]" 1500 1501]
    recordOutcome_drops_or_appends [of "''RED''" "[\<lparr>ts = 0, outcome = ''RED''\<rparr>]" 2000 2001]
    recordOutcome_drops_or_appends [of "''BLACK''" "[\<lparr>ts = 0, outcome = ''RED''\<rparr>]" 100 101]
    recordOutcome_drops_or_appends [of "''GREEN''" "[]" 100 101]
  by simp

subsection \<open>C10: mass conservation of the streak bias of the advanced predictor\<close>

text \<open>
  C10: for every input map of non-negative values (\<^verbatim>\<open>ensemblePredict\<close>, the only caller, passes
  the mixture \<^verbatim>\<open>combined\<close> of three non-negative maps) and every history, the values of the
  map returned by \<^verbatim>\<open>applyStreakBias\<close> of the advanced predictor sum to the same total as the
  values of the input map, and a normalised input stays normalised. When the last
  \<open>STREAK_WINDOW\<close> outcomes are one outcome \<open>v\<close> of the alphabet, the mass
  \<open>min(STREAK_BONUS, p[v]/2)\<close> is taken from \<open>v\<close> and added back in two halves to the two other
  outcomes, with no renormalisation; the shift is at most \<open>p[v]\<close>, so \<^verbatim>\<open>Math.max(0, ...)\<close> does
  not change the difference.
\<close>

theorem applyStreakBias_adv_conserves_mass:
  assumes "list_all (\<lambda>k. 0 \<le> p k) OUTCOMES"
  shows "sumValues OUTCOMES (applyStreakBias_adv p h) = sumValues OUTCOMES p
       \<and> (is_dist OUTCOMES p \<longrightarrow> is_dist OUTCOMES (applyStreakBias_adv p h))
       \<and> (STREAK_WINDOW \<le> length h \<and> every_same (slice_last STREAK_WINDOW h) \<and> last h \<in> set OUTCOMES
            \<longrightarrow> applyStreakBias_adv p h (last h) = p (last h) - min STREAK_BONUS_adv (p (last h) / 2)
              \<and> (\<forall>k\<in>set OUTCOMES. k \<noteq> last h
                    \<longrightarrow> applyStreakBias_adv p h k = p k + min STREAK_BONUS_adv (p (last h) / 2) / 2))"
proof -
  have nn: "0 \<le> p k" if "k \<in> set OUTCOMES" for k
    using assms that by (simp add: list_all_iff)
  have bonus: "0 \<le> STREAK_BONUS_adv" by (simp add: STREAK_BONUS_adv_def)
  have app: "applyStreakBias_adv p h (last h) = p (last h) - min STREAK_BONUS_adv (p (last h) / 2)
       \<and> (\<forall>k\<in>set OUTCOMES. k \<noteq> last h
             \<longrightarrow> applyStreakBias_adv p h k = p k + min STREAK_BONUS_adv (p (last h) / 2) / 2)"
    if st: "STREAK_WINDOW \<le> length h" "every_same (slice_last STREAK_WINDOW h)" "last h \<in> set OUTCOMES"
  proof -
    have hv: "hd (slice_last STREAK_WINDOW h) = last h"
      using st(1,2) hd_slice_last [of STREAK_WINDOW h] by (simp add: STREAK_WINDOW_def)
    have eq: "applyStreakBias_adv p h =
       (\<lambda>k. if k = last h then max 0 (p (last h) - min STREAK_BONUS_adv (p (last h) / 2))
            else if k \<in> set OUTCOMES then p k + min STREAK_BONUS_adv (p (last h) / 2) / 2 else p k)"
      using streak_adv_apply [OF st(1) st(2) hv st(3)] .
    have "min STREAK_BONUS_adv (p (last h) / 2) \<le> p (last h)"
      using nn [OF st(3)] by (simp add: min_def)
    then show ?thesis by (simp add: eq max_def)
  qed
  have sum: "sumValues OUTCOMES (applyStreakBias_adv p h) = sumValues OUTCOMES p"
  proof (cases "STREAK_WINDOW \<le> length h \<and> every_same (slice_last STREAK_WINDOW h)
                 \<and> hd (slice_last STREAK_WINDOW h) \<in> set OUTCOMES")
    case False
    then show ?thesis by (simp add: streak_adv_noop)
  next
    case True
    have hv: "hd (slice_last STREAK_WINDOW h) = last h"
      using True hd_slice_last [of STREAK_WINDOW h] by (simp add: STREAK_WINDOW_def)
    have vin: "last h \<in> set OUTCOMES" using True hv by simp
    have a: "applyStreakBias_adv p h (last h) = p (last h) - min STREAK_BONUS_adv (p (last h) / 2)"
      and b: "\<And>k. k \<in> set OUTCOMES \<Longrightarrow> k \<noteq> last h
                \<Longrightarrow> applyStreakBias_adv p h k = p k + min STREAK_BONUS_adv (p (last h) / 2) / 2"
      using app True vin by auto
    from vin show ?thesis
    proof (cases rule: OUTCOMES_cases)
      case 1
      then show ?thesis
        using a b [of "''BLACK''"] b [of "''GREEN''"] by (simp add: sumValues_3 OUTCOMES_def)
    next
      case 2
      then show ?thesis
        using a b [of "''RED''"] b [of "''GREEN''"] by (simp add: sumValues_3 OUTCOMES_def)
    next
      case 3
      then show ?thesis
        using a b [of "''RED''"] b [of "''BLACK''"] by (simp add: sumValues_3 OUTCOMES_def)
    qed
  qed
  have pos: "0 \<le> applyStreakBias_adv p h k" if kin: "k \<in> set OUTCOMES" for k
  proof (cases "STREAK_WINDOW \<le> length h \<and> every_same (slice_last STREAK_WINDOW h)
                 \<and> hd (slice_last STREAK_WINDOW h) \<in> set OUTCOMES")
    case False
    then show ?thesis using nn [OF kin] by (simp add: streak_adv_noop)
  next
    case True
    have hv: "hd (slice_last STREAK_WINDOW h) = last h"
      using True hd_slice_last [of STREAK_WINDOW h] by (simp add: STREAK_WINDOW_def)
    have vin: "last h \<in> set OUTCOMES" using True hv by simp
    have eq: "applyStreakBias_adv p h =
       (\<lambda>k. if k = last h then max 0 (p (last h) - min STREAK_BONUS_adv (p (last h) / 2))
            else if k \<in> set OUTCOMES then p k + min STREAK_BONUS_adv (p (last h) / 2) / 2 else p k)"
      using streak_adv_apply [of h "last h" p] True hv vin by simp
    have "0 \<le> min STREAK_BONUS_adv (p (last h) / 2)"
      using nn [OF vin] bonus by (simp add: min_def)
    then show ?thesis using nn [OF kin] kin by (simp add: eq)
  qed
  have dist: "is_dist OUTCOMES (applyStreakBias_adv p h)" if "is_dist OUTCOMES p"
    using that sum pos by (simp add: is_dist_def list_all_iff)
  show ?thesis using sum dist app by blast
qed

theorem applyStreakBias_adv_conserves_mass_witness:
  "list_all (\<lambda>k. 0 \<le> fromEntries OUTCOMES (1 / 3) k) OUTCOMES
   \<and> is_dist OUTCOMES (fromEntries OUTCOMES (1 / 3))
   \<and> sumValues OUTCOMES (applyStreakBias_adv (fromEntries OUTCOMES (1 / 3)) [''RED'', ''RED'', ''RED'']) = 1
   \<and> is_dist OUTCOMES (applyStreakBias_adv (fromEntries OUTCOMES (1 / 3)) [''RED'', ''RED'', ''RED''])
   \<and> applyStreakBias_adv (fromEntries OUTCOMES (1 / 3)) [''RED'', ''RED'', ''RED''] ''RED'' = 1 / 3 - 6 / 100
   \<and> applyStreakBias_adv (fromEntries OUTCOMES (1 / 3)) [''RED'', ''RED'', ''RED''] ''BLACK'' = 1 / 3 + 3 / 100
   \<and> applyStreakBias_adv (fromEntries OUTCOMES (1 / 3)) [''RED'', ''RED'', ''RED''] ''GREEN'' = 1 / 3 + 3 / 100"
proof -
  let ?p = "fromEntries OUTCOMES (1 / 3)"
  let ?h = "[''RED'', ''RED'', ''RED'']"
  have nn: "list_all (\<lambda>k. 0 \<le> ?p k) OUTCOMES"
    by (simp add: fromEntries_def OUTCOMES_def)
  have d: "is_dist OUTCOMES ?p"
    by (simp add: is_dist_def sumValues_3 fromEntries_def OUTCOMES_def)
  have st: "STREAK_WINDOW \<le> length ?h \<and> every_same (slice_last STREAK_WINDOW ?h) \<and> last ?h \<in> set OUTCOMES"
    by (simp add: STREAK_WINDOW_def slice_last_def every_same_def OUTCOMES_def)
  note t = applyStreakBias_adv_conserves_mass [OF nn, of ?h]
  have s: "sumValues OUTCOMES (applyStreakBias_adv ?p ?h) = 1"
    using t d by (simp add: is_dist_def)
  have d2: "is_dist OUTCOMES (applyStreakBias_adv ?p ?h)"
    using t d by blast
  have v: "applyStreakBias_adv ?p ?h (last ?h) = ?p (last ?h) - min STREAK_BONUS_adv (?p (last ?h) / 2)"
    and w: "\<forall>k\<in>set OUTCOMES. k \<noteq> last ?h
              \<longrightarrow> applyStreakBias_adv ?p ?h k = ?p k + min STREAK_BONUS_adv (?p (last ?h) / 2) / 2"
    using t st by blast+
  have r: "applyStreakBias_adv ?p ?h ''RED'' = 1 / 3 - 6 / 100"
    using v by (simp add: fromEntries_def OUTCOMES_def STREAK_BONUS_adv_def)
  have b: "applyStreakBias_adv ?p ?h ''BLACK'' = 1 / 3 + 3 / 100"
    using w by (simp add: fromEntries_def OUTCOMES_def STREAK_BONUS_adv_def)
  have g: "applyStreakBias_adv ?p ?h ''GREEN'' = 1 / 3 + 3 / 100"
    using w by (simp add: fromEntries_def OUTCOMES_def STREAK_BONUS_adv_def)
  show ?thesis using nn d s d2 r b g by simp
qed

end
